theory Spec2Isabelle
  imports
    Complex_Main
    "HOL-Library.Char_ord"
    "HOL-Library.List_Lexorder"
    "HOL-Library.Product_Lexorder"
    "HOL-Library.Log_Nat"
begin

section \<open>Dependency graphs (\<open>dependency_analyzer/topo_sort.py\<close>)\<close>

text \<open>
  A dependency graph is a Python \<open>Dict[str, Set[str]]\<close>. The dictionary is an association
  list in insertion order (the order in which Python iterates it); a set of successors is
  the list of its members in the order in which Python iterates that set. Nothing is
  assumed about that order, so every theorem below holds for every iteration order.
  Strings are compared as Python compares them: lexicographically by character code.
\<close>

type_synonym node = string

type_synonym graph = "(node \<times> node list) list"

text \<open>The exceptions that the modelled code can raise.\<close>

datatype failure = RecursionError | IndexError | KeyError | ValueError | OverflowError

text \<open>
  The recursion limit. Python raises \<open>RecursionError\<close> when a call would make the call
  stack deeper than the limit of the interpreter (\<open>sys.getrecursionlimit()\<close>, 1000 unless
  it is changed, and nothing in the repository changes it). The nested functions
  \<open>strongconnect\<close> and \<open>dfs\<close> call themselves once for every node along a path of the
  graph, so whether they return depends on the graph and on the stack that is left. The
  functions that reach them therefore take a parameter \<open>limit\<close>: the number of stack frames
  that the interpreter still allows below the frame of the function itself. A function
  called from there finds one frame fewer below its own. Only the calls on the way to
  \<open>strongconnect\<close> and \<open>dfs\<close> are counted; the other calls (\<open>_normalize_graph\<close>, the
  logger, built-in functions) need a depth that does not depend on the graph.
\<close>

definition keys :: "graph \<Rightarrow> node list" where
  "keys g = map fst g"

text \<open>\<open>graph.get(node, set())\<close>\<close>

definition get_deps :: "graph \<Rightarrow> node \<Rightarrow> node list" where
  "get_deps g n = (case map_of g n of None \<Rightarrow> [] | Some ds \<Rightarrow> ds)"

text \<open>\<open>sorted(s)\<close> for a set \<open>s\<close> given by a list of its members.\<close>

definition sorted_set :: "node list \<Rightarrow> node list" where
  "sorted_set xs = sort (remdups xs)"

text \<open>A well-formed dictionary of sets: keys are unique, and so are the members of each
  set.\<close>

definition wf_graph :: "graph \<Rightarrow> bool" where
  "wf_graph g \<longleftrightarrow> distinct (map fst g) \<and> (\<forall>ds \<in> set (map snd g). distinct ds)"


subsection \<open>\<open>_normalize_graph\<close>\<close>

text \<open>\<open>if dep not in normalized: normalized[dep] = set()\<close>\<close>

definition add_missing :: "node \<Rightarrow> graph \<Rightarrow> graph" where
  "add_missing dep normalized =
     (if dep \<in> set (map fst normalized) then normalized else normalized @ [(dep, [])])"

text \<open>The comprehension copies the dictionary; the loop runs over a snapshot of the
  copy's items and adds every missing successor as a key with an empty set.\<close>

definition normalize_graph :: "graph \<Rightarrow> graph" where
  "normalize_graph g = fold (\<lambda>(node, deps) normalized. fold add_missing deps normalized) g g"

subsection \<open>\<open>detect_cycles\<close>: Tarjan's algorithm\<close>

text \<open>The mutable variables of \<open>detect_cycles\<close> shared by the nested function
  \<open>strongconnect\<close>. The stack has its top at the head of the list.\<close>

record tarjan_state =
  index_counter :: nat
  index :: "node \<rightharpoonup> nat"
  lowlink :: "node \<Rightarrow> nat"
  onstack :: "node set"
  stack :: "node list"
  result :: "node list list"

text \<open>The \<open>while True\<close> loop that pops the component of \<open>node\<close> off the stack.
  \<open>stack.pop()\<close> raises on an empty list, \<open>onstack.remove\<close> on a missing member.\<close>

fun pop_scc :: "node \<Rightarrow> node list \<Rightarrow> node set \<Rightarrow> node list
    \<Rightarrow> failure + (node list \<times> node set \<times> node list)" where
  "pop_scc node [] ons scc = Inl IndexError"
| "pop_scc node (successor # stk) ons scc =
     (if successor \<notin> ons then Inl KeyError
      else if successor = node then Inr (stk, ons - {successor}, scc @ [successor])
      else pop_scc node stk (ons - {successor}) (scc @ [successor]))"

text \<open>Components with more than one member are cycles, and so are self-loops.\<close>

definition report :: "graph \<Rightarrow> node list \<Rightarrow> node list list \<Rightarrow> node list list" where
  "report g scc res =
     (if length scc > 1 then res @ [scc]
      else if length scc = 1 then
        (let only = hd scc in if only \<in> set (get_deps g only) then res @ [scc] else res)
      else res)"

text \<open>\<open>strongconnect\<close> and its loop over the successors. The first argument is the
  number of frames left for the call, its own included: with none left the call raises
  \<open>RecursionError\<close>, and the calls made from the body find one fewer.\<close>

fun strongconnect :: "nat \<Rightarrow> graph \<Rightarrow> node \<Rightarrow> tarjan_state \<Rightarrow> failure + tarjan_state"
  and visit_successors ::
    "nat \<Rightarrow> graph \<Rightarrow> node \<Rightarrow> node list \<Rightarrow> tarjan_state \<Rightarrow> failure + tarjan_state"
where
  "strongconnect 0 g node st = Inl RecursionError"
| "strongconnect (Suc fuel) g node st =
     (case visit_successors fuel g node (get_deps g node)
             (st\<lparr>index := (index st)(node \<mapsto> index_counter st),
                 lowlink := (lowlink st)(node := index_counter st),
                 index_counter := index_counter st + 1,
                 stack := node # stack st,
                 onstack := insert node (onstack st)\<rparr>) of
        Inl e \<Rightarrow> Inl e
      | Inr st2 \<Rightarrow>
          if Some (lowlink st2 node) = index st2 node then
            (case pop_scc node (stack st2) (onstack st2) [] of
               Inl e \<Rightarrow> Inl e
             | Inr (stk, ons, scc) \<Rightarrow>
                 Inr (st2\<lparr>stack := stk, onstack := ons, result := report g scc (result st2)\<rparr>))
          else Inr st2)"
| "visit_successors fuel g node [] st = Inr st"
| "visit_successors fuel g node (successor # rest) st =
     (case index st successor of
        None \<Rightarrow>
          (case strongconnect fuel g successor st of
             Inl e \<Rightarrow> Inl e
           | Inr st' \<Rightarrow>
               visit_successors fuel g node rest
                 (st'\<lparr>lowlink := (lowlink st')
                        (node := min (lowlink st' node) (lowlink st' successor))\<rparr>))
      | Some i \<Rightarrow>
          if successor \<in> onstack st then
            visit_successors fuel g node rest
              (st\<lparr>lowlink := (lowlink st)(node := min (lowlink st node) i)\<rparr>)
          else visit_successors fuel g node rest st)"

text \<open>\<open>for node in graph: if node not in index: strongconnect(node)\<close>\<close>

fun visit_all :: "nat \<Rightarrow> graph \<Rightarrow> node list \<Rightarrow> tarjan_state \<Rightarrow> failure + tarjan_state" where
  "visit_all fuel g [] st = Inr st"
| "visit_all fuel g (node # rest) st =
     (case index st node of
        None \<Rightarrow>
          (case strongconnect fuel g node st of
             Inl e \<Rightarrow> Inl e
           | Inr st' \<Rightarrow> visit_all fuel g rest st')
      | Some i \<Rightarrow> visit_all fuel g rest st)"

definition tarjan_init :: tarjan_state where
  "tarjan_init = \<lparr>index_counter = 0, index = Map.empty, lowlink = (\<lambda>n. 0),
     onstack = {}, stack = [], result = []\<rparr>"

definition detect_cycles :: "nat \<Rightarrow> graph \<Rightarrow> failure + node list list" where
  "detect_cycles limit graph0 =
     (let g = normalize_graph graph0 in
      case visit_all limit g (keys g) tarjan_init of
        Inl e \<Rightarrow> Inl e
      | Inr st \<Rightarrow> Inr (result st))"

subsection \<open>\<open>resolve_cycles\<close>\<close>

text \<open>\<open>new_graph[u].remove(v)\<close>\<close>

definition remove_edge :: "graph \<Rightarrow> node \<Rightarrow> node \<Rightarrow> graph" where
  "remove_edge g u v = map (\<lambda>(k, ds). if k = u then (k, removeAll v ds) else (k, ds)) g"

text \<open>The two nested \<open>for\<close> loops that look for the first edge inside the component.\<close>

fun first_intra_edge :: "graph \<Rightarrow> node set \<Rightarrow> node list \<Rightarrow> (node \<times> node) option" where
  "first_intra_edge g scc_set [] = None"
| "first_intra_edge g scc_set (u # us) =
     (case find (\<lambda>v. v \<in> scc_set) (sorted_set (get_deps g u)) of
        Some v \<Rightarrow> Some (u, v)
      | None \<Rightarrow> first_intra_edge g scc_set us)"

text \<open>The body of \<open>for i, scc in enumerate(cycles)\<close>. The loop state is the graph being
  edited, the list \<open>removed_edges\<close> and the flag \<open>changed_this_round\<close>.\<close>

type_synonym round_state = "graph \<times> (node \<times> node) list \<times> bool"

definition break_group :: "node list \<Rightarrow> round_state \<Rightarrow> round_state" where
  "break_group scc s =
     (case s of (new_graph, removed_edges, changed_this_round) \<Rightarrow>
        (case find (\<lambda>u. u \<in> set (get_deps new_graph u)) (sorted_set scc) of
           Some u \<Rightarrow> (remove_edge new_graph u u, removed_edges @ [(u, u)], True)
         | None \<Rightarrow>
             if changed_this_round then s
             else
               (case first_intra_edge new_graph (set scc) (sorted_set scc) of
                  Some (u, v) \<Rightarrow> (remove_edge new_graph u v, removed_edges @ [(u, v)], True)
                | None \<Rightarrow> s)))"






subsection \<open>\<open>topological_sort\<close>\<close>










subsection \<open>\<open>dependency_first_dfs\<close>\<close>

record dfs_state =
  visited :: "node set"
  visiting :: "node set"
  order :: "node list"

text \<open>The nested function \<open>dfs\<close> and its loop over the sorted dependencies; \<open>order\<close> is
  the list \<open>result\<close> of the source. As in \<open>strongconnect\<close>, the first argument is the
  number of frames left for the call.\<close>

fun dfs :: "nat \<Rightarrow> graph \<Rightarrow> node \<Rightarrow> dfs_state \<Rightarrow> failure + dfs_state"
  and dfs_deps :: "nat \<Rightarrow> graph \<Rightarrow> node list \<Rightarrow> dfs_state \<Rightarrow> failure + dfs_state"
where
  "dfs 0 g node st = Inl RecursionError"
| "dfs (Suc fuel) g node st =
     (if node \<in> visited st then Inr st
      else if node \<in> visiting st then Inr st
      else
        (case dfs_deps fuel g (sorted_set (get_deps g node))
                (st\<lparr>visiting := insert node (visiting st)\<rparr>) of
           Inl e \<Rightarrow> Inl e
         | Inr st' \<Rightarrow>
             if node \<notin> visiting st' then Inl KeyError
             else Inr (st'\<lparr>visiting := visiting st' - {node},
                          visited := insert node (visited st'),
                          order := order st' @ [node]\<rparr>)))"
| "dfs_deps fuel g [] st = Inr st"
| "dfs_deps fuel g (dep # rest) st =
     (case dfs fuel g dep st of
        Inl e \<Rightarrow> Inl e
      | Inr st' \<Rightarrow> dfs_deps fuel g rest st')"




section \<open>\<open>_normalize_graph\<close> on Python objects\<close>

text \<open>
  To state that \<open>_normalize_graph\<close> leaves its argument alone, dictionaries and sets are
  objects in a store, named by references. A dictionary object maps each key to the
  reference of a set object. \<open>next_ref\<close> is the next unused reference.
\<close>

type_synonym ref = nat

record store =
  next_ref :: ref
  set_objs :: "ref \<rightharpoonup> node list"
  dict_objs :: "ref \<rightharpoonup> (node \<times> ref) list"

text \<open>\<open>set(deps)\<close> and \<open>set()\<close>: a new set object.\<close>

definition alloc_set :: "node list \<Rightarrow> store \<Rightarrow> ref \<times> store" where
  "alloc_set members st =
     (next_ref st,
      st\<lparr>next_ref := Suc (next_ref st), set_objs := (set_objs st)(next_ref st \<mapsto> members)\<rparr>)"

text \<open>The items of the comprehension \<open>{node: set(deps) for node, deps in graph.items()}\<close>.
  \<open>None\<close> stands for a reference without an object, which Python rules out.\<close>

fun copy_items :: "(node \<times> ref) list \<Rightarrow> store \<Rightarrow> ((node \<times> ref) list \<times> store) option" where
  "copy_items [] st = Some ([], st)"
| "copy_items ((node, r) # rest) st =
     (case set_objs st r of
        None \<Rightarrow> None
      | Some deps \<Rightarrow>
          (case alloc_set deps st of (r', st') \<Rightarrow>
             (case copy_items rest st' of
                None \<Rightarrow> None
              | Some (items, st'') \<Rightarrow> Some ((node, r') # items, st''))))"

text \<open>\<open>if dep not in normalized: normalized[dep] = set()\<close>, where \<open>normalized\<close> is the
  dictionary object \<open>d\<close>.\<close>

definition add_missing_obj :: "ref \<Rightarrow> node \<Rightarrow> store \<Rightarrow> store option" where
  "add_missing_obj d dep st =
     (case dict_objs st d of
        None \<Rightarrow> None
      | Some items \<Rightarrow>
          if dep \<in> set (map fst items) then Some st
          else (case alloc_set [] st of (r, st') \<Rightarrow>
                  Some (st'\<lparr>dict_objs := (dict_objs st')(d \<mapsto> items @ [(dep, r)])\<rparr>)))"

fun add_missing_deps :: "ref \<Rightarrow> node list \<Rightarrow> store \<Rightarrow> store option" where
  "add_missing_deps d [] st = Some st"
| "add_missing_deps d (dep # deps) st =
     (case add_missing_obj d dep st of
        None \<Rightarrow> None
      | Some st' \<Rightarrow> add_missing_deps d deps st')"

text \<open>The loop over the snapshot \<open>list(normalized.items())\<close>.\<close>

fun add_missing_items :: "ref \<Rightarrow> (node \<times> ref) list \<Rightarrow> store \<Rightarrow> store option" where
  "add_missing_items d [] st = Some st"
| "add_missing_items d ((node, r) # rest) st =
     (case set_objs st r of
        None \<Rightarrow> None
      | Some deps \<Rightarrow>
          (case add_missing_deps d deps st of
             None \<Rightarrow> None
           | Some st' \<Rightarrow> add_missing_items d rest st'))"

definition normalize_graph_obj :: "ref \<Rightarrow> store \<Rightarrow> (ref \<times> store) option" where
  "normalize_graph_obj g st =
     (case dict_objs st g of
        None \<Rightarrow> None
      | Some items \<Rightarrow>
          (case copy_items items st of
             None \<Rightarrow> None
           | Some (items', st1) \<Rightarrow>
               (let d = next_ref st1;
                    st2 = st1\<lparr>next_ref := Suc d, dict_objs := (dict_objs st1)(d \<mapsto> items')\<rparr>
                in map_option (Pair d) (add_missing_items d items' st2))))"

text \<open>The graph that a list of dictionary items denotes in a store.\<close>

fun read_items :: "store \<Rightarrow> (node \<times> ref) list \<Rightarrow> graph option" where
  "read_items st [] = Some []"
| "read_items st ((k, r) # rest) =
     (case set_objs st r of
        None \<Rightarrow> None
      | Some deps \<Rightarrow> map_option ((#) (k, deps)) (read_items st rest))"

definition read_graph :: "store \<Rightarrow> ref \<Rightarrow> graph option" where
  "read_graph st d = (case dict_objs st d of None \<Rightarrow> None | Some items \<Rightarrow> read_items st items)"

text \<open>Every object of \<open>st\<close> is the same in \<open>st'\<close>.\<close>

definition unchanged :: "store \<Rightarrow> store \<Rightarrow> bool" where
  "unchanged st st' \<longleftrightarrow>
     next_ref st \<le> next_ref st' \<and>
     (\<forall>r < next_ref st. set_objs st' r = set_objs st r \<and> dict_objs st' r = dict_objs st r)"

section \<open>Scoring (\<open>dependency_analyzer/filter_components_by_cis.py\<close>)\<close>

subsection \<open>Python floats\<close>

text \<open>
  A Python \<open>float\<close> is an IEEE 754 binary64 number. A finite one is modelled by the
  rational number it denotes, and every arithmetic operation by the exact operation
  followed by rounding to the nearest binary64 number, ties to even, as IEEE 754
  prescribes. The exponent is not bounded above here: where a result can exceed the
  largest binary64 number, or an argument can be an infinity or NaN, the model says so
  (see \<open>main\<close>).
\<close>

type_synonym float = rat

definition pow2 :: "int \<Rightarrow> rat" where
  "pow2 k = (if 0 \<le> k then 2 ^ nat k else 1 / 2 ^ nat (- k))"

text \<open>The integer \<open>e\<close> with \<open>2^e \<le> x < 2^(e+1)\<close>, for positive \<open>x\<close>.\<close>

definition floor_log2 :: "rat \<Rightarrow> int" where
  "floor_log2 x = (if 1 \<le> x then bitlen \<lfloor>x\<rfloor> - 1 else - bitlen (\<lceil>1 / x\<rceil> - 1))"

definition round_half_even :: "rat \<Rightarrow> int" where
  "round_half_even t =
     (let f = \<lfloor>t\<rfloor>; r = t - of_int f
      in if r < 1 / 2 then f else if 1 / 2 < r then f + 1 else if even f then f else f + 1)"

text \<open>Rounding of a positive number: 53 significant bits, with the exponent of the last
  bit no smaller than -1074 (the subnormal range).\<close>

definition fl_pos :: "rat \<Rightarrow> float" where
  "fl_pos x =
     (let e = max (floor_log2 x - 52) (- 1074)
      in of_int (round_half_even (x / pow2 e)) * pow2 e)"

definition fl :: "rat \<Rightarrow> float" where
  "fl x = (if x = 0 then 0 else if 0 < x then fl_pos x else - fl_pos (- x))"

definition fadd :: "float \<Rightarrow> float \<Rightarrow> float" where
  "fadd x y = fl (x + y)"

definition fmul :: "float \<Rightarrow> float \<Rightarrow> float" where
  "fmul x y = fl (x * y)"

text \<open>Division, used with non-zero divisors only.\<close>

definition fdiv :: "float \<Rightarrow> float \<Rightarrow> float" where
  "fdiv x y = fl (x / y)"

text \<open>\<open>float(n)\<close> for an integer \<open>n\<close>.\<close>

definition float_of_int :: "int \<Rightarrow> float" where
  "float_of_int n = fl (of_int n)"

subsection \<open>\<open>select_top_percent\<close>\<close>

record Metrics =
  in_deg :: int
  out_deg :: int
  betweenness :: float
  pagerank :: float
  score :: float

text \<open>The dictionary \<open>metrics\<close> in insertion order.\<close>

type_synonym metrics_dict = "(node \<times> Metrics) list"

text \<open>\<open>sorted(ids, key=lambda cid: (-metrics[cid].score, cid))\<close>: every id is a key of
  \<open>metrics\<close>, so the entries are sorted by the key computed from each entry, and tuples
  compare lexicographically.\<close>

definition ranked_ids :: "metrics_dict \<Rightarrow> node list" where
  "ranked_ids metrics = map fst (sort_key (\<lambda>(cid, m). (- score m, cid)) metrics)"

definition select_count :: "nat \<Rightarrow> float \<Rightarrow> int" where
  "select_count n top_percent =
     (let k = \<lceil>fmul (float_of_int (int n)) (fdiv top_percent 100)\<rceil>
      in max 1 (min k (int n)))"

definition select_top_percent :: "metrics_dict \<Rightarrow> float \<Rightarrow> node list" where
  "select_top_percent metrics top_percent =
     (if top_percent \<le> 0 then []
      else
        (let ids = map fst metrics
         in if top_percent \<ge> 100 then sort ids
            else take (nat (select_count (length ids) top_percent)) (ranked_ids metrics)))"

subsection \<open>\<open>compute_betweenness\<close>\<close>

text \<open>\<open>idx[d]\<close>: the position of \<open>d\<close> in the list of keys.\<close>

definition idx :: "node list \<Rightarrow> node \<Rightarrow> nat" where
  "idx nodes d = length (takeWhile (\<lambda>n. n \<noteq> d) nodes)"

text \<open>\<open>_build_index_graph\<close>: the items are visited in the order of the keys, so the
  \<open>i\<close>-th adjacency list is built from the \<open>i\<close>-th item. Successors that are not keys are
  dropped.\<close>

definition build_index_graph :: "graph \<Rightarrow> node list \<times> nat list list" where
  "build_index_graph out_edges =
     (let nodes = keys out_edges
      in (nodes, map (\<lambda>(src, dsts). map (idx nodes) (filter (\<lambda>d. d \<in> set nodes) dsts))
                   out_edges))"

text \<open>The work buffers, reused from one source to the next. \<open>queue\<close> is the deque \<open>q\<close>,
  \<open>bstack\<close> the list \<open>stack\<close>, \<open>preds\<close> the list \<open>pred\<close> and \<open>dists\<close> the list \<open>dist\<close>.
  All indices are positions of keys, hence in range.\<close>

record brandes =
  queue :: "nat list"
  bstack :: "nat list"
  touched :: "nat list"
  preds :: "nat list list"
  sigma :: "float list"
  dists :: "int list"
  delta :: "float list"
  cb :: "float list"

text \<open>The body of \<open>for w in adjacency[v]\<close>.\<close>

definition visit_edge :: "int \<Rightarrow> nat \<Rightarrow> nat \<Rightarrow> brandes \<Rightarrow> brandes" where
  "visit_edge dv v w st =
     (let st1 = (if dists st ! w < 0
                 then st\<lparr>dists := (dists st)[w := dv + 1],
                         queue := queue st @ [w],
                         touched := touched st @ [w]\<rparr>
                 else st)
      in if dists st1 ! w = dv + 1
         then st1\<lparr>sigma := (sigma st1)[w := fadd (sigma st1 ! w) (sigma st1 ! v)],
                  preds := (preds st1)[w := preds st1 ! w @ [v]]\<rparr>
         else st1)"

text \<open>The loop \<open>while q\<close>; \<open>None\<close> stands for a loop that never ends.\<close>

partial_function (option) bfs :: "nat list list \<Rightarrow> brandes \<Rightarrow> brandes option" where
  "bfs adjacency st =
     (case queue st of
        [] \<Rightarrow> Some st
      | v # rest \<Rightarrow>
          bfs adjacency
            (fold (visit_edge (dists st ! v) v) (adjacency ! v)
               (st\<lparr>queue := rest, bstack := bstack st @ [v]\<rparr>)))"

declare bfs.simps [code]

text \<open>The body of \<open>for v in pred[w]\<close>.\<close>

definition back_edge :: "nat \<Rightarrow> nat \<Rightarrow> brandes \<Rightarrow> brandes" where
  "back_edge w v st =
     (if sigma st ! w \<noteq> 0
      then st\<lparr>delta := (delta st)
                 [v := fadd (delta st ! v)
                         (fmul (fdiv (sigma st ! v) (sigma st ! w)) (fadd 1 (delta st ! w)))]\<rparr>
      else st)"

text \<open>The body of \<open>while stack\<close> for the popped node \<open>w\<close>.\<close>

definition pop_node :: "nat \<Rightarrow> nat \<Rightarrow> brandes \<Rightarrow> brandes" where
  "pop_node s w st =
     (let st1 = fold (back_edge w) (preds st ! w) st
      in if w \<noteq> s then st1\<lparr>cb := (cb st1)[w := fadd (cb st1 ! w) (delta st1 ! w)]\<rparr>
         else st1)"

text \<open>The loop \<open>while stack\<close> pops the nodes from the last pushed to the first.\<close>

definition accumulate :: "nat \<Rightarrow> brandes \<Rightarrow> brandes" where
  "accumulate s st = (fold (pop_node s) (rev (bstack st)) st)\<lparr>bstack := []\<rparr>"

text \<open>The body of \<open>for v in touched\<close>.\<close>

definition reset_node :: "nat \<Rightarrow> brandes \<Rightarrow> brandes" where
  "reset_node v st =
     st\<lparr>dists := (dists st)[v := - 1], sigma := (sigma st)[v := 0],
        delta := (delta st)[v := 0], preds := (preds st)[v := []]\<rparr>"

text \<open>The body of \<open>for s in sources\<close>.\<close>

definition run_source :: "nat list list \<Rightarrow> nat \<Rightarrow> brandes \<Rightarrow> brandes option" where
  "run_source adjacency s st =
     (case bfs adjacency
             (st\<lparr>queue := [s], bstack := [], touched := [s],
                 dists := (dists st)[s := 0], sigma := (sigma st)[s := 1]\<rparr>) of
        None \<Rightarrow> None
      | Some st1 \<Rightarrow>
          (let st2 = accumulate s st1 in Some (fold reset_node (touched st2) st2)))"

fun run_sources :: "nat list list \<Rightarrow> nat list \<Rightarrow> brandes \<Rightarrow> brandes option" where
  "run_sources adjacency [] st = Some st"
| "run_sources adjacency (s # sources) st =
     (case run_source adjacency s st of
        None \<Rightarrow> None
      | Some st' \<Rightarrow> run_sources adjacency sources st')"

definition brandes_init :: "nat \<Rightarrow> brandes" where
  "brandes_init n =
     \<lparr>queue = [], bstack = [], touched = [], preds = replicate n [],
      sigma = replicate n 0, dists = replicate n (- 1), delta = replicate n 0,
      cb = replicate n 0\<rparr>"

text \<open>\<open>random.Random(seed).sample(range(n), k)\<close> belongs to the standard library and is a
  parameter: \<open>rng_sample seed n k\<close>. The result is the dictionary in insertion order.\<close>

definition compute_betweenness ::
  "(int \<Rightarrow> nat \<Rightarrow> nat \<Rightarrow> nat list) \<Rightarrow> graph \<Rightarrow> int \<Rightarrow> int \<Rightarrow> (node \<times> float) list option"
where
  "compute_betweenness rng_sample out_edges samples seed =
     (case build_index_graph out_edges of (nodes, adjacency) \<Rightarrow>
        (let n = length nodes
         in if n = 0 then Some []
            else if samples < 0 then Some (map (\<lambda>node. (node, 0)) nodes)
            else
              (case (if samples = 0 \<or> samples \<ge> int n then ([0..<n], 1)
                     else (let sources = rng_sample seed n (nat samples)
                           in (sources,
                               fdiv (float_of_int (int n)) (float_of_int (int (length sources))))))
               of (sources, scale) \<Rightarrow>
                 (case run_sources adjacency sources (brandes_init n) of
                    None \<Rightarrow> None
                  | Some st \<Rightarrow> Some (zip nodes (map (\<lambda>x. fmul x scale) (cb st)))))))"

subsection \<open>\<open>compute_pagerank\<close>\<close>

text \<open>
  The function is written over a rounding function \<open>rnd\<close>, applied after every arithmetic
  operation: with \<open>fl\<close> it is the Python function, with the identity it is the same
  computation in exact arithmetic. Ranks are functions from nodes to numbers, turned into
  the result dictionary at the end.

  \<open>in_edges[dst].append(src)\<close> raises \<open>KeyError\<close> when \<open>dst\<close> is not a key.
\<close>

fun add_in_edges ::
  "node list \<Rightarrow> node \<Rightarrow> node list \<Rightarrow> (node \<Rightarrow> node list) \<Rightarrow> failure + (node \<Rightarrow> node list)"
where
  "add_in_edges nodes src [] in_edges = Inr in_edges"
| "add_in_edges nodes src (dst # dsts) in_edges =
     (if dst \<notin> set nodes then Inl KeyError
      else add_in_edges nodes src dsts (in_edges(dst := in_edges dst @ [src])))"

fun build_in_edges ::
  "node list \<Rightarrow> graph \<Rightarrow> (node \<Rightarrow> node list) \<Rightarrow> failure + (node \<Rightarrow> node list)"
where
  "build_in_edges nodes [] in_edges = Inr in_edges"
| "build_in_edges nodes ((src, dsts) # rest) in_edges =
     (case add_in_edges nodes src dsts in_edges of
        Inl e \<Rightarrow> Inl e
      | Inr in_edges' \<Rightarrow> build_in_edges nodes rest in_edges')"

text \<open>Python's \<open>sum\<close>: additions from left to right, starting from 0.\<close>

definition py_sum :: "(rat \<Rightarrow> rat) \<Rightarrow> rat list \<Rightarrow> rat" where
  "py_sum rnd xs = foldl (\<lambda>acc x. rnd (acc + x)) 0 xs"

text \<open>The inner loop \<open>for src in in_edges[node]\<close> that computes \<open>s\<close>.\<close>

definition incoming_rank ::
  "(rat \<Rightarrow> rat) \<Rightarrow> (node \<Rightarrow> nat) \<Rightarrow> (node \<Rightarrow> rat) \<Rightarrow> node list \<Rightarrow> rat" where
  "incoming_rank rnd out_degree prev srcs =
     foldl (\<lambda>s src. if out_degree src > 0
                     then rnd (s + rnd (prev src / of_nat (out_degree src))) else s) 0 srcs"

text \<open>One pass of the loop body up to the convergence test: the new ranks.\<close>

definition pagerank_step ::
  "(rat \<Rightarrow> rat) \<Rightarrow> node list \<Rightarrow> (node \<Rightarrow> nat) \<Rightarrow> (node \<Rightarrow> node list) \<Rightarrow> rat
     \<Rightarrow> (node \<Rightarrow> rat) \<Rightarrow> (node \<Rightarrow> rat)" where
  "pagerank_step rnd nodes out_degree in_edges damping prev =
     (let n = of_nat (length nodes);
          base = rnd (rnd (1 - damping) / n);
          dangling_mass = py_sum rnd (map prev (filter (\<lambda>node. out_degree node = 0) nodes));
          dangling_share = rnd (rnd (damping * dangling_mass) / n)
      in (\<lambda>node.
            rnd ((if dangling_share \<noteq> 0 then rnd (base + dangling_share) else base)
                 + rnd (damping * incoming_rank rnd out_degree prev (in_edges node)))))"

text \<open>\<open>for _ in range(max_iter)\<close>, with the \<open>break\<close> on the L1 difference.\<close>

fun pagerank_loop ::
  "(rat \<Rightarrow> rat) \<Rightarrow> node list \<Rightarrow> (node \<Rightarrow> nat) \<Rightarrow> (node \<Rightarrow> node list) \<Rightarrow> rat \<Rightarrow> rat
     \<Rightarrow> nat \<Rightarrow> (node \<Rightarrow> rat) \<Rightarrow> (node \<Rightarrow> rat)" where
  "pagerank_loop rnd nodes out_degree in_edges damping tol 0 rank = rank"
| "pagerank_loop rnd nodes out_degree in_edges damping tol (Suc k) prev =
     (let rank = pagerank_step rnd nodes out_degree in_edges damping prev;
          diff = py_sum rnd (map (\<lambda>node. \<bar>rnd (rank node - prev node)\<bar>) nodes)
      in if diff < tol then rank
         else pagerank_loop rnd nodes out_degree in_edges damping tol k rank)"

definition pagerank_with ::
  "(rat \<Rightarrow> rat) \<Rightarrow> graph \<Rightarrow> rat \<Rightarrow> int \<Rightarrow> rat \<Rightarrow> failure + (node \<times> rat) list" where
  "pagerank_with rnd out_edges damping max_iter tol =
     (let nodes = keys out_edges; n = length nodes
      in if n = 0 then Inr []
         else
           (case build_in_edges nodes out_edges (\<lambda>node. []) of
              Inl e \<Rightarrow> Inl e
            | Inr in_edges \<Rightarrow>
                (let rank = pagerank_loop rnd nodes (\<lambda>node. length (get_deps out_edges node))
                              in_edges damping tol (nat max_iter)
                              (\<lambda>node. rnd (1 / of_nat n))
                 in Inr (map (\<lambda>node. (node, rank node)) nodes))))"

definition compute_pagerank :: "graph \<Rightarrow> float \<Rightarrow> int \<Rightarrow> float \<Rightarrow> failure + (node \<times> float) list"
where
  "compute_pagerank = pagerank_with fl"

subsection \<open>\<open>main\<close>\<close>

text \<open>
  The entry point is modelled from the point where \<open>load_dependency_graph\<close> (not among the
  sources) has returned the components and \<open>compute_metrics\<close>, which has no side effect,
  has returned \<open>metrics\<close>. Only the arguments that steer the output are kept. What the
  program writes is a list of effects: the output file with the identifiers written to it,
  and the printed lines, where the formatted text of a line is left out.

  The two percentages are parsed by \<open>argparse\<close> with \<open>type=float\<close>, that is by
  \<open>float(string)\<close>, which also accepts \<open>inf\<close>, \<open>-inf\<close> and \<open>nan\<close>.
\<close>

datatype arg_float = Finite float | PosInf | NegInf | NaN

record args =
  out_path :: string
  top_percent :: arg_float
  print_top_percent :: arg_float
  print_top :: "int option"















section \<open>Notions used to state the properties\<close>

text \<open>A graph is closed when every successor is a key.\<close>

definition closed :: "graph \<Rightarrow> bool" where
  "closed g \<longleftrightarrow> (\<forall>ds \<in> set (map snd g). set ds \<subseteq> set (keys g))"

text \<open>The edges \<open>a \<rightarrow> b\<close> of a graph: \<open>b\<close> is in the set stored under \<open>a\<close>.\<close>

definition edges :: "graph \<Rightarrow> (node \<times> node) set" where
  "edges g = {(a, b). b \<in> set (get_deps g a)}"

text \<open>All nodes mentioned by a graph, as keys or as successors.\<close>

definition nodes_of :: "graph \<Rightarrow> node set" where
  "nodes_of g = set (keys g) \<union> \<Union> (set ` set (map snd g))"

text \<open>A chain of \<open>n\<close> nodes named \<open>a\<close>, \<open>aa\<close>, \<open>aaa\<close>, ... in which every node depends on
  the next one: the dictionary \<open>{'a': {'aa'}, 'aa': {'aaa'}, ...}\<close>.\<close>

definition chain_node :: "nat \<Rightarrow> node" where
  "chain_node i = replicate (Suc i) CHR ''a''"












text \<open>\<open>b\<close> occurs in the sequence, and \<open>a\<close> occurs after the first occurrence of \<open>b\<close>:
  \<open>b\<close> appears strictly before \<open>a\<close>.\<close>

definition precedes :: "node \<Rightarrow> node \<Rightarrow> node list \<Rightarrow> bool" where
  "precedes b a xs \<longleftrightarrow> a \<in> set (tl (dropWhile (\<lambda>x. x \<noteq> b) xs))"

text \<open>Every member of the sequence has all its dependencies strictly before it.\<close>

definition deps_placed :: "graph \<Rightarrow> node list \<Rightarrow> bool" where
  "deps_placed g xs \<longleftrightarrow> (\<forall>a \<in> set xs. \<forall>b \<in> set (get_deps g a). precedes b a xs)"


text \<open>The bookkeeping of the depth-first traversal: \<open>order\<close> lists the visited nodes
  once each, and no node is both finished and in progress.\<close>

definition dfs_inv :: "dfs_state \<Rightarrow> bool" where
  "dfs_inv st \<longleftrightarrow>
     set (order st) = visited st \<and> distinct (order st) \<and> visited st \<inter> visiting st = {}"

text \<open>What a call of \<open>dfs\<close> establishes whatever the graph.\<close>

definition dfs_post :: "graph \<Rightarrow> dfs_state \<Rightarrow> dfs_state \<Rightarrow> bool" where
  "dfs_post g st st' \<longleftrightarrow>
     dfs_inv st' \<and> visiting st' = visiting st \<and> visited st \<subseteq> visited st' \<and>
     visited st' \<subseteq> visited st \<union> nodes_of g"

text \<open>The count that the specification gives for the selection, in exact arithmetic.\<close>

definition spec_select_count :: "nat \<Rightarrow> rat \<Rightarrow> int" where
  "spec_select_count n p = max 1 (min \<lceil>of_nat n * p / 100\<rceil> (int n))"

text \<open>A metrics record with every field zero, and a dictionary of 25 such records.\<close>

definition zero_metrics :: Metrics where
  "zero_metrics = \<lparr>in_deg = 0, out_deg = 0, betweenness = 0, pagerank = 0, score = 0\<rparr>"

definition metrics25 :: metrics_dict where
  "metrics25 = map (\<lambda>c. ([c], zero_metrics)) ''abcdefghijklmnopqrstuvwxy''"

text \<open>A store is well formed when every object has a reference below \<open>next_ref\<close>.\<close>

definition wf_store :: "store \<Rightarrow> bool" where
  "wf_store st \<longleftrightarrow>
     (\<forall>r. set_objs st r \<noteq> None \<longrightarrow> r < next_ref st) \<and>
     (\<forall>r. dict_objs st r \<noteq> None \<longrightarrow> r < next_ref st)"

text \<open>As \<open>unchanged\<close>, but for the dictionary object \<open>d\<close>.\<close>

definition unchanged_but :: "ref \<Rightarrow> store \<Rightarrow> store \<Rightarrow> bool" where
  "unchanged_but d st st' \<longleftrightarrow>
     next_ref st \<le> next_ref st' \<and>
     (\<forall>r < next_ref st. set_objs st' r = set_objs st r \<and>
        (r \<noteq> d \<longrightarrow> dict_objs st' r = dict_objs st r))"

text \<open>The sum over all nodes of a quantity summed over the incoming edges.\<close>

definition incoming_total :: "(node \<Rightarrow> rat) \<Rightarrow> node list \<Rightarrow> (node \<Rightarrow> node list) \<Rightarrow> rat" where
  "incoming_total f nodes in_edges = (\<Sum>node\<leftarrow>nodes. \<Sum>src\<leftarrow>in_edges node. f src)"

section \<open>Properties of \<open>_normalize_graph\<close>\<close>

lemma add_missing_present: "dep \<in> set (keys g) \<Longrightarrow> add_missing dep g = g"
  by (simp add: add_missing_def keys_def)

lemma fold_add_missing_present:
  "set ds \<subseteq> set (keys g) \<Longrightarrow> fold add_missing ds g = g"
  by (induction ds) (simp_all add: add_missing_present)

lemma fold_add_missing_ext:
  "\<exists>ext. fold add_missing ds acc = acc @ ext \<and> (\<forall>e \<in> set ext. snd e = [])
     \<and> set (keys (acc @ ext)) = set (keys acc) \<union> set ds"
proof (induction ds arbitrary: acc)
  case Nil
  show ?case by (rule exI [of _ "[]"]) simp
next
  case (Cons d ds)
  obtain e1 where e1: "add_missing d acc = acc @ e1" "\<forall>e \<in> set e1. snd e = []"
    "set (keys (acc @ e1)) = insert d (set (keys acc))"
    by (cases "d \<in> set (keys acc)") (auto simp: add_missing_def keys_def)
  from Cons.IH [of "acc @ e1"] obtain e2 where
    e2: "fold add_missing ds (acc @ e1) = (acc @ e1) @ e2" "\<forall>e \<in> set e2. snd e = []"
      "set (keys ((acc @ e1) @ e2)) = set (keys (acc @ e1)) \<union> set ds"
    by blast
  show ?case
    by (rule exI [of _ "e1 @ e2"]) (use e1 e2 in auto)
qed

lemma fold_normalize_ext:
  "\<exists>ext. fold (\<lambda>(node, deps) normalized. fold add_missing deps normalized) xs acc = acc @ ext
     \<and> (\<forall>e \<in> set ext. snd e = [])
     \<and> set (keys (acc @ ext)) = set (keys acc) \<union> \<Union> (set ` set (map snd xs))"
proof (induction xs arbitrary: acc)
  case Nil
  show ?case by (rule exI [of _ "[]"]) simp
next
  case (Cons x xs)
  obtain n ds where x: "x = (n, ds)" by (cases x)
  from fold_add_missing_ext [of ds acc] obtain e1 where
    e1: "fold add_missing ds acc = acc @ e1" "\<forall>e \<in> set e1. snd e = []"
      "set (keys (acc @ e1)) = set (keys acc) \<union> set ds"
    by blast
  from Cons.IH [of "acc @ e1"] obtain e2 where
    e2: "fold (\<lambda>(node, deps) normalized. fold add_missing deps normalized) xs (acc @ e1)
          = (acc @ e1) @ e2" "\<forall>e \<in> set e2. snd e = []"
      "set (keys ((acc @ e1) @ e2)) = set (keys (acc @ e1)) \<union> \<Union> (set ` set (map snd xs))"
    by blast
  show ?case
    by (rule exI [of _ "e1 @ e2"]) (use x e1 e2 in auto)
qed

lemma normalize_graph_ext:
  "\<exists>ext. normalize_graph g = g @ ext \<and> (\<forall>e \<in> set ext. snd e = [])
     \<and> set (keys (normalize_graph g)) = set (keys g) \<union> \<Union> (set ` set (map snd g))"
  using fold_normalize_ext [of g g] unfolding normalize_graph_def by auto

lemma closed_normalize_graph: "closed (normalize_graph g)"
proof -
  from normalize_graph_ext [of g] obtain ext where
    e: "normalize_graph g = g @ ext" "\<forall>e \<in> set ext. snd e = []"
      "set (keys (normalize_graph g)) = set (keys g) \<union> \<Union> (set ` set (map snd g))"
    by blast
  show ?thesis unfolding closed_def
  proof
    fix ds assume "ds \<in> set (map snd (normalize_graph g))"
    then consider "ds \<in> set (map snd g)" | "ds \<in> set (map snd ext)"
      using e(1) by auto
    then show "set ds \<subseteq> set (keys (normalize_graph g))"
    proof cases
      case 1 then show ?thesis using e(3) by auto
    next
      case 2 then show ?thesis using e(2) by auto
    qed
  qed
qed

lemma fold_normalize_closed:
  "\<forall>ds \<in> set (map snd xs). set ds \<subseteq> set (keys acc) \<Longrightarrow>
   fold (\<lambda>(node, deps) normalized. fold add_missing deps normalized) xs acc = acc"
  by (induction xs) (auto simp: fold_add_missing_present)

lemma normalize_graph_closed: "closed g \<Longrightarrow> normalize_graph g = g"
  unfolding normalize_graph_def closed_def by (rule fold_normalize_closed)

lemma normalize_graph_idem: "normalize_graph (normalize_graph g) = normalize_graph g"
  by (rule normalize_graph_closed) (rule closed_normalize_graph)




lemma length_remove_edge: "length (remove_edge g u v) = length g"
  by (simp add: remove_edge_def)




section \<open>\<open>_normalize_graph\<close> and its argument\<close>

lemma read_items_keys: "read_items st items = Some gr \<Longrightarrow> map fst gr = map fst items"
  by (induction items arbitrary: gr) (auto split: option.splits)

lemma read_items_refs:
  "wf_store st \<Longrightarrow> read_items st items = Some gr \<Longrightarrow> \<forall>r \<in> set (map snd items). r < next_ref st"
proof (induction items arbitrary: gr)
  case Nil
  then show ?case by simp
next
  case (Cons item rest)
  obtain k r where item: "item = (k, r)" by (cases item)
  from Cons.prems(2) obtain deps grest where
    "set_objs st r = Some deps" "read_items st rest = Some grest"
    by (auto simp: item split: option.splits)
  moreover from this have "r < next_ref st" using Cons.prems(1) by (simp add: wf_store_def)
  ultimately show ?case using Cons.IH [OF Cons.prems(1)] by (simp add: item)
qed

lemma read_items_same:
  "\<forall>r \<in> set (map snd items). set_objs st' r = set_objs st r \<Longrightarrow>
   read_items st' items = read_items st items"
  by (induction items) (auto split: option.splits)

lemma read_items_append:
  "read_items st items = Some gr \<Longrightarrow> set_objs st r = Some deps \<Longrightarrow>
   read_items st (items @ [(k, r)]) = Some (gr @ [(k, deps)])"
  by (induction items arbitrary: gr) (auto split: option.splits)

lemma unchanged_trans: "unchanged a b \<Longrightarrow> unchanged b c \<Longrightarrow> unchanged a c"
  unfolding unchanged_def by (metis (no_types, lifting) le_trans less_le_trans)

lemma unchanged_but_trans: "unchanged_but d a b \<Longrightarrow> unchanged_but d b c \<Longrightarrow> unchanged_but d a c"
  unfolding unchanged_but_def by (metis (no_types, lifting) le_trans less_le_trans)

lemma alloc_set_spec:
  assumes "wf_store st" "alloc_set members st = (r, st')"
  shows "wf_store st'" "unchanged st st'" "r = next_ref st" "next_ref st' = Suc r"
    "set_objs st' r = Some members" "dict_objs st' = dict_objs st"
  using assms by (auto simp: alloc_set_def wf_store_def unchanged_def less_Suc_eq)

lemma copy_items_spec:
  assumes "wf_store st" "read_items st items = Some gr"
  shows "\<exists>items' st'. copy_items items st = Some (items', st') \<and> wf_store st' \<and>
     unchanged st st' \<and> dict_objs st' = dict_objs st \<and> read_items st' items' = Some gr"
  using assms
proof (induction items arbitrary: st gr)
  case Nil
  then show ?case by (simp add: unchanged_def)
next
  case (Cons item rest)
  obtain k r where item: "item = (k, r)" by (cases item)
  from Cons.prems(2) obtain deps grest where
    deps: "set_objs st r = Some deps" and rest: "read_items st rest = Some grest"
    and gr: "gr = (k, deps) # grest"
    by (auto simp: item split: option.splits)
  obtain r' st1 where a: "alloc_set deps st = (r', st1)" by (cases "alloc_set deps st")
  note al = alloc_set_spec [OF Cons.prems(1) a]
  have refs: "\<forall>x \<in> set (map snd rest). x < next_ref st"
    using read_items_refs [OF Cons.prems(1) rest] .
  have "read_items st1 rest = read_items st rest"
    by (rule read_items_same) (use refs al(2) in \<open>auto simp: unchanged_def\<close>)
  then have rest1: "read_items st1 rest = Some grest" using rest by simp
  from Cons.IH [OF al(1) rest1] obtain items' st2 where
    c: "copy_items rest st1 = Some (items', st2)" and wf2: "wf_store st2"
    and un: "unchanged st1 st2" and dd: "dict_objs st2 = dict_objs st1"
    and rd: "read_items st2 items' = Some grest" by blast
  have "set_objs st2 r' = Some deps"
    using un al(3,4,5) by (auto simp: unchanged_def)
  then have "read_items st2 ((k, r') # items') = Some gr" using rd gr by simp
  moreover have "copy_items (item # rest) st = Some ((k, r') # items', st2)"
    using deps a c by (simp add: item)
  moreover have "unchanged st st2" using al(2) un by (rule unchanged_trans)
  ultimately show ?case using wf2 dd al(6) by auto
qed

lemma add_missing_obj_spec:
  assumes "wf_store st" "dict_objs st d = Some items" "read_items st items = Some gr"
  shows "\<exists>st' items'. add_missing_obj d dep st = Some st' \<and> wf_store st' \<and>
     unchanged_but d st st' \<and> dict_objs st' d = Some items' \<and>
     read_items st' items' = Some (add_missing dep gr)"
proof (cases "dep \<in> set (map fst items)")
  case True
  then have "add_missing_obj d dep st = Some st" "add_missing dep gr = gr"
    using assms(2) read_items_keys [OF assms(3)]
    by (simp_all add: add_missing_obj_def add_missing_def)
  then show ?thesis using assms by (auto simp: unchanged_but_def)
next
  case False
  obtain r st1 where a: "alloc_set [] st = (r, st1)" by (cases "alloc_set [] st")
  note al = alloc_set_spec [OF assms(1) a]
  define st2 where "st2 = st1\<lparr>dict_objs := (dict_objs st1)(d \<mapsto> items @ [(dep, r)])\<rparr>"
  have d: "d < next_ref st" using assms(1,2) by (auto simp: wf_store_def)
  have run: "add_missing_obj d dep st = Some st2"
    using False assms(2) a by (simp add: add_missing_obj_def st2_def)
  have wf2: "wf_store st2"
    using al(1,3,4) d by (auto simp: wf_store_def st2_def)
  have un: "unchanged_but d st st2"
    using al(2) by (auto simp: unchanged_def unchanged_but_def st2_def)
  have refs: "\<forall>x \<in> set (map snd items). x < next_ref st"
    using read_items_refs [OF assms(1,3)] .
  have "read_items st2 items = read_items st items"
    by (rule read_items_same) (use refs al(2) in \<open>auto simp: unchanged_def st2_def\<close>)
  moreover have "set_objs st2 r = Some []" using al(5) by (simp add: st2_def)
  ultimately have "read_items st2 (items @ [(dep, r)]) = Some (gr @ [(dep, [])])"
    using assms(3) by (simp add: read_items_append)
  moreover have "add_missing dep gr = gr @ [(dep, [])]"
    using False read_items_keys [OF assms(3)] by (simp add: add_missing_def)
  moreover have "dict_objs st2 d = Some (items @ [(dep, r)])" by (simp add: st2_def)
  ultimately show ?thesis using run wf2 un by auto
qed

lemma add_missing_deps_spec:
  assumes "wf_store st" "dict_objs st d = Some items" "read_items st items = Some gr"
  shows "\<exists>st' items'. add_missing_deps d deps st = Some st' \<and> wf_store st' \<and>
     unchanged_but d st st' \<and> dict_objs st' d = Some items' \<and>
     read_items st' items' = Some (fold add_missing deps gr)"
  using assms
proof (induction deps arbitrary: st items gr)
  case Nil
  then show ?case by (auto simp: unchanged_but_def)
next
  case (Cons dep deps)
  from add_missing_obj_spec [OF Cons.prems, of dep] obtain st1 items1 where
    s1: "add_missing_obj d dep st = Some st1" "wf_store st1" "unchanged_but d st st1"
      "dict_objs st1 d = Some items1" "read_items st1 items1 = Some (add_missing dep gr)"
    by blast
  from Cons.IH [OF s1(2,4,5)] obtain st2 items2 where
    s2: "add_missing_deps d deps st1 = Some st2" "wf_store st2" "unchanged_but d st1 st2"
      "dict_objs st2 d = Some items2"
      "read_items st2 items2 = Some (fold add_missing deps (add_missing dep gr))"
    by blast
  have "unchanged_but d st st2" using s1(3) s2(3) by (rule unchanged_but_trans)
  then show ?case using s1(1) s2 by auto
qed

lemma add_missing_items_spec:
  assumes "wf_store st" "dict_objs st d = Some items" "read_items st items = Some gr"
    "read_items st snapshot = Some gs"
  shows "\<exists>st' items'. add_missing_items d snapshot st = Some st' \<and> wf_store st' \<and>
     unchanged_but d st st' \<and> dict_objs st' d = Some items' \<and>
     read_items st' items' =
       Some (fold (\<lambda>(node, deps) normalized. fold add_missing deps normalized) gs gr)"
  using assms
proof (induction snapshot arbitrary: st items gr gs)
  case Nil
  then show ?case by (auto simp: unchanged_but_def)
next
  case (Cons item rest)
  obtain k r where item: "item = (k, r)" by (cases item)
  from Cons.prems(4) obtain deps grest where
    deps: "set_objs st r = Some deps" and rest: "read_items st rest = Some grest"
    and gs: "gs = (k, deps) # grest"
    by (auto simp: item split: option.splits)
  from add_missing_deps_spec [OF Cons.prems(1,2,3), of deps] obtain st1 items1 where
    s1: "add_missing_deps d deps st = Some st1" "wf_store st1" "unchanged_but d st st1"
      "dict_objs st1 d = Some items1"
      "read_items st1 items1 = Some (fold add_missing deps gr)"
    by blast
  have refs: "\<forall>x \<in> set (map snd rest). x < next_ref st"
    using read_items_refs [OF Cons.prems(1) rest] .
  have "read_items st1 rest = read_items st rest"
    by (rule read_items_same) (use refs s1(3) in \<open>auto simp: unchanged_but_def\<close>)
  then have rest1: "read_items st1 rest = Some grest" using rest by simp
  from Cons.IH [OF s1(2,4,5) rest1] obtain st2 items2 where
    s2: "add_missing_items d rest st1 = Some st2" "wf_store st2" "unchanged_but d st1 st2"
      "dict_objs st2 d = Some items2"
      "read_items st2 items2 =
         Some (fold (\<lambda>(node, deps) normalized. fold add_missing deps normalized) grest
                 (fold add_missing deps gr))"
    by blast
  have "unchanged_but d st st2" using s1(3) s2(3) by (rule unchanged_but_trans)
  moreover have "add_missing_items d (item # rest) st = Some st2"
    using deps s1(1) s2(1) by (simp add: item)
  ultimately show ?case using s2 gs by auto
qed

lemma normalize_graph_obj_spec:
  assumes wf: "wf_store st" and rd: "read_graph st g = Some G"
  shows "\<exists>d st'. normalize_graph_obj g st = Some (d, st') \<and> unchanged st st' \<and>
     read_graph st' g = Some G \<and> read_graph st' d = Some (normalize_graph G)"
proof -
  from rd obtain items where items: "dict_objs st g = Some items"
    and ri: "read_items st items = Some G"
    by (auto simp: read_graph_def split: option.splits)
  from copy_items_spec [OF wf ri] obtain items' st1 where
    c: "copy_items items st = Some (items', st1)" and wf1: "wf_store st1"
    and un1: "unchanged st st1" and dd1: "dict_objs st1 = dict_objs st"
    and r1: "read_items st1 items' = Some G" by blast
  define d where "d = next_ref st1"
  define st2 where "st2 = st1\<lparr>next_ref := Suc d, dict_objs := (dict_objs st1)(d \<mapsto> items')\<rparr>"
  have wf2: "wf_store st2"
    using wf1 by (auto simp: wf_store_def st2_def d_def less_Suc_eq)
  have un2: "unchanged st1 st2" by (auto simp: unchanged_def st2_def d_def)
  have r2: "read_items st2 items' = Some G"
    using r1 read_items_same [of items' st2 st1] by (simp add: st2_def)
  have d2: "dict_objs st2 d = Some items'" by (simp add: st2_def)
  from add_missing_items_spec [OF wf2 d2 r2 r2] obtain st3 items3 where
    s3: "add_missing_items d items' st2 = Some st3" "unchanged_but d st2 st3"
      "dict_objs st3 d = Some items3" "read_items st3 items3 = Some (normalize_graph G)"
    unfolding normalize_graph_def by blast
  have run: "normalize_graph_obj g st = Some (d, st3)"
    using items c s3(1) by (simp add: normalize_graph_obj_def d_def st2_def Let_def)
  have dge: "next_ref st \<le> d" using un1 by (simp add: unchanged_def d_def)
  have un02: "unchanged st st2" using un1 un2 by (rule unchanged_trans)
  have un: "unchanged st st3"
    unfolding unchanged_def
  proof (intro conjI allI impI)
    show "next_ref st \<le> next_ref st3"
      using un02 s3(2) by (auto simp: unchanged_def unchanged_but_def)
  next
    fix r assume r: "r < next_ref st"
    then have "r < next_ref st2" "r \<noteq> d" using un02 dge by (auto simp: unchanged_def)
    then have "set_objs st3 r = set_objs st2 r" "dict_objs st3 r = dict_objs st2 r"
      using s3(2) by (auto simp: unchanged_but_def)
    then show "set_objs st3 r = set_objs st r" "dict_objs st3 r = dict_objs st r"
      using un02 r by (auto simp: unchanged_def)
  qed
  have glt: "g < next_ref st" using wf items by (auto simp: wf_store_def)
  have refs: "\<forall>x \<in> set (map snd items). x < next_ref st"
    using read_items_refs [OF wf ri] .
  have "read_items st3 items = read_items st items"
    by (rule read_items_same) (use refs un in \<open>auto simp: unchanged_def\<close>)
  moreover have "dict_objs st3 g = Some items" using un glt items by (simp add: unchanged_def)
  ultimately have "read_graph st3 g = Some G" using ri by (simp add: read_graph_def)
  moreover have "read_graph st3 d = Some (normalize_graph G)"
    using s3(3,4) by (simp add: read_graph_def)
  ultimately show ?thesis using run un by blast
qed

text \<open>
  Claim C4. \<open>normalize\<close> is idempotent on every mapping, the empty one included:
  \<open>normalize(normalize(G)) == normalize(G)\<close> (here even with the same iteration orders).
  And it does not mutate its argument: run on a dictionary object \<open>g\<close> that denotes \<open>G\<close>,
  it returns a new dictionary object that denotes the normalised graph, every object that
  existed before the call is unchanged, and \<open>g\<close> still denotes \<open>G\<close>.
\<close>

theorem normalize_idempotent_and_pure:
  "normalize_graph (normalize_graph G) = normalize_graph G \<and>
   (wf_store st \<and> read_graph st g = Some G \<longrightarrow>
      (\<exists>d st'. normalize_graph_obj g st = Some (d, st') \<and> unchanged st st' \<and>
         read_graph st' g = Some G \<and> read_graph st' d = Some (normalize_graph G)))"
  using normalize_graph_idem [of G] normalize_graph_obj_spec [of st g G] by blast

theorem normalize_idempotent_and_pure_witness:
  "wf_store \<lparr>next_ref = 3, set_objs = [0 \<mapsto> [''B'', ''C''], 1 \<mapsto> [''D'']],
      dict_objs = [2 \<mapsto> [(''A'', 0), (''B'', 1)]]\<rparr> \<and>
   read_graph \<lparr>next_ref = 3, set_objs = [0 \<mapsto> [''B'', ''C''], 1 \<mapsto> [''D'']],
      dict_objs = [2 \<mapsto> [(''A'', 0), (''B'', 1)]]\<rparr> 2
     = Some [(''A'', [''B'', ''C'']), (''B'', [''D''])] \<and>
   (\<exists>d st'. normalize_graph_obj 2
        \<lparr>next_ref = 3, set_objs = [0 \<mapsto> [''B'', ''C''], 1 \<mapsto> [''D'']],
          dict_objs = [2 \<mapsto> [(''A'', 0), (''B'', 1)]]\<rparr> = Some (d, st') \<and>
      unchanged \<lparr>next_ref = 3, set_objs = [0 \<mapsto> [''B'', ''C''], 1 \<mapsto> [''D'']],
          dict_objs = [2 \<mapsto> [(''A'', 0), (''B'', 1)]]\<rparr> st' \<and>
      read_graph st' 2 = Some [(''A'', [''B'', ''C'']), (''B'', [''D''])] \<and>
      read_graph st' d = Some (normalize_graph [(''A'', [''B'', ''C'']), (''B'', [''D''])]))"
proof -
  let ?st = "\<lparr>next_ref = 3, set_objs = [0 \<mapsto> [''B'', ''C''], 1 \<mapsto> [''D'']],
      dict_objs = [2 \<mapsto> [(''A'', 0), (''B'', 1)]]\<rparr>"
  have wf: "wf_store ?st" by (auto simp: wf_store_def split: if_splits)
  have rd: "read_graph ?st 2 = Some [(''A'', [''B'', ''C'']), (''B'', [''D''])]"
    by (simp add: read_graph_def)
  from normalize_idempotent_and_pure [of "[(''A'', [''B'', ''C'']), (''B'', [''D''])]" ?st 2]
    wf rd show ?thesis by blast
qed

section \<open>Properties of \<open>detect_cycles\<close>\<close>

lemma finite_nodes_of: "finite (nodes_of g)"
  by (simp add: nodes_of_def)

lemma get_deps_nodes_of: "x \<in> set (get_deps g n) \<Longrightarrow> x \<in> nodes_of g"
proof (cases "map_of g n")
  case None
  then show "x \<in> set (get_deps g n) \<Longrightarrow> x \<in> nodes_of g" by (simp add: get_deps_def)
next
  case (Some ds)
  assume "x \<in> set (get_deps g n)"
  then have "x \<in> set ds" using Some by (simp add: get_deps_def)
  moreover have "ds \<in> set (map snd g)" using map_of_SomeD [OF Some] by force
  ultimately show "x \<in> nodes_of g" unfolding nodes_of_def by blast
qed










text \<open>A call that returns with some number of frames returns the same with more.\<close>

lemma strongconnect_mono:
  "strongconnect fuel g node st = Inr st' \<Longrightarrow> strongconnect (fuel + k) g node st = Inr st'"
  and visit_successors_mono:
  "visit_successors fuel g node ss st = Inr st' \<Longrightarrow>
   visit_successors (fuel + k) g node ss st = Inr st'"
proof (induction fuel g node st and fuel g node ss st arbitrary: st' and st'
    rule: strongconnect_visit_successors.induct)
  case (1 g node st)
  then show ?case by simp
next
  case (2 fuel g node st)
  define st1 where "st1 = st\<lparr>index := (index st)(node \<mapsto> index_counter st),
                 lowlink := (lowlink st)(node := index_counter st),
                 index_counter := index_counter st + 1,
                 stack := node # stack st,
                 onstack := insert node (onstack st)\<rparr>"
  from "2.prems" obtain st2 where
    run: "visit_successors fuel g node (get_deps g node) st1 = Inr st2"
    by (auto simp: st1_def split: sum.splits)
  from "2.IH" [folded st1_def, OF run]
  have "visit_successors (fuel + k) g node (get_deps g node) st1 = Inr st2" .
  then show ?case using "2.prems" run by (simp add: st1_def)
next
  case (3 fuel g node st)
  then show ?case by simp
next
  case (4 fuel g node successor rest st)
  show ?case
  proof (cases "index st successor")
    case None
    from "4.prems" None obtain sa where run: "strongconnect fuel g successor st = Inr sa"
      by (auto split: sum.splits)
    have run': "strongconnect (fuel + k) g successor st = Inr sa"
      using "4.IH"(1) [OF None run] .
    show ?thesis using "4.IH"(2) [OF None run] "4.prems" None run run' by simp
  next
    case (Some i)
    show ?thesis
    proof (cases "successor \<in> onstack st")
      case True
      show ?thesis using "4.IH"(3) [OF Some True] "4.prems" Some True by simp
    next
      case False
      show ?thesis using "4.IH"(4) [OF Some False] "4.prems" Some False by simp
    qed
  qed
qed

lemma visit_all_mono:
  "visit_all fuel g ns st = Inr st' \<Longrightarrow> visit_all (fuel + k) g ns st = Inr st'"
proof (induction ns arbitrary: st)
  case Nil
  then show ?case by simp
next
  case (Cons n ns)
  show ?case
  proof (cases "index st n")
    case None
    from Cons.prems None obtain sa where run: "strongconnect fuel g n st = Inr sa"
      by (auto split: sum.splits)
    then have "visit_all fuel g ns sa = Inr st'" using Cons.prems None by simp
    then have "visit_all (fuel + k) g ns sa = Inr st'" by (rule Cons.IH)
    then show ?thesis using None strongconnect_mono [OF run, of k] by simp
  next
    case (Some i)
    then show ?thesis using Cons by simp
  qed
qed

lemma detect_cycles_mono:
  assumes "detect_cycles limit g = Inr cycles" "limit \<le> limit'"
  shows "detect_cycles limit' g = Inr cycles"
proof -
  obtain k where k: "limit' = limit + k" using assms(2) by (auto simp: le_iff_add)
  from assms(1) obtain st where
    "visit_all limit (normalize_graph g) (keys (normalize_graph g)) tarjan_init = Inr st"
    "cycles = result st"
    by (auto simp: detect_cycles_def Let_def split: sum.splits)
  then show ?thesis using visit_all_mono [of limit _ _ tarjan_init st k]
    by (simp add: detect_cycles_def Let_def k)
qed



section \<open>Properties of \<open>resolve_cycles\<close>\<close>

lemma set_sorted_set: "set (sorted_set xs) = set xs"
  by (simp add: sorted_set_def)






























text \<open>A chain longer than the frames that are left makes the detector raise.\<close>

lemma chain_node_eq [simp]: "chain_node i = chain_node j \<longleftrightarrow> i = j"
proof
  assume "chain_node i = chain_node j"
  then have "length (chain_node i) = length (chain_node j)" by simp
  then show "i = j" by (simp add: chain_node_def)
qed simp












text \<open>
  Claim C1 (the code departs from it). On the graph with the two disjoint cycles
  \<open>A \<rightarrow> B \<rightarrow> A\<close> and \<open>C \<rightarrow> D \<rightarrow> C\<close> the detector reports two groups, and the first
  round removes one edge only, \<open>A \<rightarrow> B\<close>: once the flag \<open>changed_this_round\<close> is set by
  the first group, the test \<open>if changed_this_round: continue\<close> skips the edge removal of
  every later group that has no self-loop.
\<close>

theorem resolve_round_skips_later_groups:
  "detect_cycles 1000 [(''A'', [''B'']), (''B'', [''A'']), (''C'', [''D'']), (''D'', [''C''])]
     = Inr [[''B'', ''A''], [''D'', ''C'']] \<and>
   fold break_group [[''B'', ''A''], [''D'', ''C'']]
     (normalize_graph [(''A'', [''B'']), (''B'', [''A'']), (''C'', [''D'']), (''D'', [''C''])],
      [], False)
     = ([(''A'', []), (''B'', [''A'']), (''C'', [''D'']), (''D'', [''C''])],
        [(''A'', ''B'')], True)"
proof (intro conjI)
  have "detect_cycles 2 [(''A'', [''B'']), (''B'', [''A'']), (''C'', [''D'']), (''D'', [''C''])]
     = Inr [[''B'', ''A''], [''D'', ''C'']]"
    by code_simp
  then show
    "detect_cycles 1000 [(''A'', [''B'']), (''B'', [''A'']), (''C'', [''D'']), (''D'', [''C''])]
     = Inr [[''B'', ''A''], [''D'', ''C'']]"
    by (rule detect_cycles_mono) simp
qed code_simp

section \<open>Properties of \<open>topological_sort\<close>\<close>

lemma precedes_append: "precedes b a xs \<Longrightarrow> precedes b a (xs @ ys)"
proof -
  assume p: "precedes b a xs"
  then have "dropWhile (\<lambda>x. x \<noteq> b) xs \<noteq> []"
    unfolding precedes_def by (cases "dropWhile (\<lambda>x. x \<noteq> b) xs") auto
  then have "b \<in> set xs" by (auto simp: dropWhile_eq_Nil_conv)
  then have "dropWhile (\<lambda>x. x \<noteq> b) (xs @ ys) = dropWhile (\<lambda>x. x \<noteq> b) xs @ ys"
    by (intro dropWhile_append1) auto
  with p \<open>dropWhile (\<lambda>x. x \<noteq> b) xs \<noteq> []\<close> show ?thesis by (auto simp: precedes_def)
qed

lemma precedes_snoc: "b \<in> set xs \<Longrightarrow> precedes b a (xs @ [a])"
proof -
  assume b: "b \<in> set xs"
  then have "dropWhile (\<lambda>x. x \<noteq> b) (xs @ [a]) = dropWhile (\<lambda>x. x \<noteq> b) xs @ [a]"
    by (intro dropWhile_append1) auto
  moreover have "dropWhile (\<lambda>x. x \<noteq> b) xs \<noteq> []" using b by (simp add: dropWhile_eq_Nil_conv)
  ultimately show ?thesis by (auto simp: precedes_def)
qed

lemma precedes_distinct_irrefl: "distinct xs \<Longrightarrow> \<not> precedes a a xs"
proof
  assume d: "distinct xs" and p: "precedes a a xs"
  define ys where "ys = dropWhile (\<lambda>x. x \<noteq> a) xs"
  have "ys \<noteq> []" using p unfolding precedes_def ys_def
    by (cases "dropWhile (\<lambda>x. x \<noteq> a) xs") auto
  then have "hd ys = a" unfolding ys_def using hd_dropWhile [of "\<lambda>x. x \<noteq> a" xs] by auto
  moreover have "distinct ys" unfolding ys_def using d by (rule distinct_dropWhile)
  ultimately show False using p \<open>ys \<noteq> []\<close>
    by (cases ys) (auto simp: precedes_def ys_def [symmetric])
qed


lemma get_deps_distinct_keys:
  "distinct (map fst g) \<Longrightarrow> (n, ds) \<in> set g \<Longrightarrow> get_deps g n = ds"
  by (simp add: get_deps_def)















section \<open>Properties of \<open>dependency_first_dfs\<close>\<close>

lemma card_unvisiting_insert:
  assumes "node \<in> nodes_of g" "node \<notin> V" "card (nodes_of g - V) < Suc fuel"
  shows "card (nodes_of g - insert node V) < fuel"
proof -
  have "nodes_of g - insert node V = (nodes_of g - V) - {node}" by auto
  moreover have "node \<in> nodes_of g - V" using assms by simp
  ultimately have "card (nodes_of g - insert node V) = card (nodes_of g - V) - 1"
    and "card (nodes_of g - V) > 0"
    by (auto simp: finite_nodes_of card_gt_0_iff)
  then show ?thesis using assms(3) by simp
qed

lemma deps_placed_snoc:
  assumes "deps_placed g xs" "set (get_deps g node) \<subseteq> set xs"
  shows "deps_placed g (xs @ [node])"
  unfolding deps_placed_def
proof (intro ballI)
  fix a b assume ab: "a \<in> set (xs @ [node])" "b \<in> set (get_deps g a)"
  show "precedes b a (xs @ [node])"
  proof (cases "a \<in> set xs")
    case True
    then show ?thesis using assms(1) ab(2) by (auto simp: deps_placed_def intro: precedes_append)
  next
    case False
    then have "a = node" using ab(1) by simp
    then have "b \<in> set xs" using ab(2) assms(2) by auto
    then show ?thesis using \<open>a = node\<close> by (simp add: precedes_snoc)
  qed
qed

lemma dfs_post_trans: "dfs_post g a b \<Longrightarrow> dfs_post g b c \<Longrightarrow> dfs_post g a c"
  unfolding dfs_post_def by blast

lemma dfs_total:
  "dfs_inv st \<Longrightarrow> node \<in> nodes_of g \<Longrightarrow> card (nodes_of g - visiting st) < fuel \<Longrightarrow>
   \<exists>st'. dfs fuel g node st = Inr st' \<and> dfs_post g st st' \<and>
     node \<in> visited st' \<union> visiting st \<and>
     (acyclic (edges g) \<and> (\<forall>v \<in> visiting st. (v, node) \<in> (edges g)\<^sup>+) \<and>
      deps_placed g (order st) \<longrightarrow> node \<in> visited st' \<and> deps_placed g (order st'))"
  and dfs_deps_total:
  "dfs_inv st \<Longrightarrow> set deps \<subseteq> nodes_of g \<Longrightarrow> card (nodes_of g - visiting st) < fuel \<Longrightarrow>
   \<exists>st'. dfs_deps fuel g deps st = Inr st' \<and> dfs_post g st st' \<and>
     set deps \<subseteq> visited st' \<union> visiting st \<and>
     (acyclic (edges g) \<and> (\<forall>v \<in> visiting st. \<forall>d \<in> set deps. (v, d) \<in> (edges g)\<^sup>+) \<and>
      deps_placed g (order st) \<longrightarrow> set deps \<subseteq> visited st' \<and> deps_placed g (order st'))"
proof (induction fuel g node st and fuel g deps st rule: dfs_dfs_deps.induct)
  case (1 g node st)
  then show ?case by simp
next
  case (2 fuel g node st)
  show ?case
  proof (cases "node \<in> visited st \<or> node \<in> visiting st")
    case True
    have "dfs (Suc fuel) g node st = Inr st" using True by auto
    moreover have "dfs_post g st st" using "2.prems"(1) by (simp add: dfs_post_def)
    moreover have "node \<in> visited st" if "acyclic (edges g)"
      "\<forall>v \<in> visiting st. (v, node) \<in> (edges g)\<^sup>+"
      using that True by (auto simp: acyclic_def)
    ultimately show ?thesis using True by auto
  next
    case False
    define st1 where "st1 = st\<lparr>visiting := insert node (visiting st)\<rparr>"
    let ?deps = "sorted_set (get_deps g node)"
    have inv1: "dfs_inv st1" using "2.prems"(1) False by (auto simp: dfs_inv_def st1_def)
    have sub: "set ?deps \<subseteq> nodes_of g"
      by (auto simp: set_sorted_set intro: get_deps_nodes_of)
    have card1: "card (nodes_of g - visiting st1) < fuel"
      using card_unvisiting_insert [OF "2.prems"(2) _ "2.prems"(3)] False by (simp add: st1_def)
    from "2.IH" [folded st1_def, OF _ _ inv1 sub card1] False
    obtain st2 where run: "dfs_deps fuel g ?deps st1 = Inr st2"
      and post: "dfs_post g st1 st2"
      and cond: "acyclic (edges g) \<and>
          (\<forall>v \<in> visiting st1. \<forall>d \<in> set ?deps. (v, d) \<in> (edges g)\<^sup>+) \<and>
          deps_placed g (order st1) \<longrightarrow> set ?deps \<subseteq> visited st2 \<and> deps_placed g (order st2)"
      by blast
    from post have inv2: "dfs_inv st2" and ving: "visiting st2 = insert node (visiting st)"
      and mono: "visited st \<subseteq> visited st2" and bound: "visited st2 \<subseteq> visited st \<union> nodes_of g"
      by (auto simp: dfs_post_def st1_def)
    define st3 where "st3 = st2\<lparr>visiting := visiting st2 - {node},
        visited := insert node (visited st2), order := order st2 @ [node]\<rparr>"
    have res: "dfs (Suc fuel) g node st = Inr st3"
      using False run ving by (simp add: st1_def st3_def)
    have fresh: "node \<notin> visited st2" using inv2 ving by (auto simp: dfs_inv_def)
    have inv3: "dfs_inv st3"
      using inv2 fresh by (auto simp: dfs_inv_def st3_def)
    have ving3: "visiting st3 = visiting st" using ving False by (auto simp: st3_def)
    have post3: "dfs_post g st st3"
      unfolding dfs_post_def using inv3 ving3 mono bound "2.prems"(2) by (auto simp: st3_def)
    have placed3: "deps_placed g (order st3)"
      if ac: "acyclic (edges g)" and reach: "\<forall>v \<in> visiting st. (v, node) \<in> (edges g)\<^sup>+"
        and pl: "deps_placed g (order st)"
    proof -
      have "\<forall>v \<in> visiting st1. \<forall>d \<in> set ?deps. (v, d) \<in> (edges g)\<^sup>+"
      proof (intro ballI)
        fix v d assume v: "v \<in> visiting st1" and d: "d \<in> set ?deps"
        from d have e: "(node, d) \<in> edges g" by (simp add: edges_def set_sorted_set)
        show "(v, d) \<in> (edges g)\<^sup>+"
        proof (cases "v = node")
          case True
          then show ?thesis using e by auto
        next
          case False
          then have "(v, node) \<in> (edges g)\<^sup>+" using v reach by (simp add: st1_def)
          then show ?thesis using e by (rule trancl_into_trancl)
        qed
      qed
      moreover have "deps_placed g (order st1)" using pl by (simp add: st1_def)
      ultimately have "set ?deps \<subseteq> visited st2" "deps_placed g (order st2)"
        using cond ac by blast+
      moreover have "set (order st2) = visited st2" using inv2 by (simp add: dfs_inv_def)
      ultimately have "deps_placed g (order st2 @ [node])"
        by (intro deps_placed_snoc) (simp_all add: set_sorted_set)
      then show ?thesis by (simp add: st3_def)
    qed
    have "node \<in> visited st3" by (simp add: st3_def)
    with res post3 placed3 show ?thesis by blast
  qed
next
  case (3 fuel g st)
  then show ?case by (simp add: dfs_post_def)
next
  case (4 fuel g dep rest st)
  have dep: "dep \<in> nodes_of g" and rest: "set rest \<subseteq> nodes_of g" using "4.prems"(2) by auto
  from "4.IH"(1) [OF "4.prems"(1) dep "4.prems"(3)]
  obtain st1 where run1: "dfs fuel g dep st = Inr st1" and post1: "dfs_post g st st1"
    and in1: "dep \<in> visited st1 \<union> visiting st"
    and cond1: "acyclic (edges g) \<and> (\<forall>v \<in> visiting st. (v, dep) \<in> (edges g)\<^sup>+) \<and>
      deps_placed g (order st) \<longrightarrow> dep \<in> visited st1 \<and> deps_placed g (order st1)"
    by blast
  have inv1: "dfs_inv st1" and ving1: "visiting st1 = visiting st"
    using post1 by (auto simp: dfs_post_def)
  have card1: "card (nodes_of g - visiting st1) < fuel" using "4.prems"(3) ving1 by simp
  from "4.IH"(2) [OF run1 inv1 rest card1]
  obtain st2 where run2: "dfs_deps fuel g rest st1 = Inr st2" and post2: "dfs_post g st1 st2"
    and in2: "set rest \<subseteq> visited st2 \<union> visiting st1"
    and cond2: "acyclic (edges g) \<and>
      (\<forall>v \<in> visiting st1. \<forall>d \<in> set rest. (v, d) \<in> (edges g)\<^sup>+) \<and>
      deps_placed g (order st1) \<longrightarrow> set rest \<subseteq> visited st2 \<and> deps_placed g (order st2)"
    by blast
  have mono2: "visited st1 \<subseteq> visited st2" using post2 by (simp add: dfs_post_def)
  have res: "dfs_deps fuel g (dep # rest) st = Inr st2" using run1 run2 by simp
  have post: "dfs_post g st st2" using post1 post2 by (rule dfs_post_trans)
  have cover: "set (dep # rest) \<subseteq> visited st2 \<union> visiting st"
    using in1 in2 mono2 ving1 by auto
  have cond: "set (dep # rest) \<subseteq> visited st2 \<and> deps_placed g (order st2)"
    if "acyclic (edges g)" "\<forall>v \<in> visiting st. \<forall>d \<in> set (dep # rest). (v, d) \<in> (edges g)\<^sup>+"
      "deps_placed g (order st)"
  proof -
    have a: "dep \<in> visited st1" "deps_placed g (order st1)" using cond1 that by auto
    then have "set rest \<subseteq> visited st2 \<and> deps_placed g (order st2)"
      using cond2 that ving1 by auto
    then show ?thesis using a(1) mono2 by auto
  qed
  from res post cover cond show ?case by blast
qed

lemma dfs_mono:
  "dfs fuel g node st = Inr st' \<Longrightarrow> dfs (fuel + k) g node st = Inr st'"
  and dfs_deps_mono:
  "dfs_deps fuel g deps st = Inr st' \<Longrightarrow> dfs_deps (fuel + k) g deps st = Inr st'"
proof (induction fuel g node st and fuel g deps st arbitrary: st' and st'
    rule: dfs_dfs_deps.induct)
  case (1 g node st)
  then show ?case by simp
next
  case (2 fuel g node st)
  show ?case
  proof (cases "node \<in> visited st \<or> node \<in> visiting st")
    case True
    then show ?thesis using "2.prems" by (auto split: if_splits)
  next
    case False
    then have nv: "node \<notin> visited st" "node \<notin> visiting st" by simp_all
    define st1 where "st1 = st\<lparr>visiting := insert node (visiting st)\<rparr>"
    from "2.prems" nv obtain st2 where
      run: "dfs_deps fuel g (sorted_set (get_deps g node)) st1 = Inr st2"
      by (auto simp: st1_def split: sum.splits)
    from "2.IH" [OF nv, folded st1_def, OF run]
    have "dfs_deps (fuel + k) g (sorted_set (get_deps g node)) st1 = Inr st2" .
    then show ?thesis using "2.prems" nv run by (simp add: st1_def)
  qed
next
  case (3 fuel g st)
  then show ?case by simp
next
  case (4 fuel g dep rest st)
  from "4.prems" obtain st1 where run: "dfs fuel g dep st = Inr st1"
    by (auto split: sum.splits)
  have "dfs (fuel + k) g dep st = Inr st1" using "4.IH"(1) [OF run] .
  moreover have "dfs_deps (fuel + k) g rest st1 = Inr st'"
    using "4.IH"(2) [OF run] "4.prems" run by simp
  ultimately show ?case by simp
qed




section \<open>The two orderings\<close>














section \<open>The rounding of floats\<close>

lemma pow2_pos: "0 < pow2 k"
  by (simp add: pow2_def)

lemma pow2_nat: "pow2 (int n) = 2 ^ n"
  by (simp add: pow2_def)

lemma pow2_neg_nat: "pow2 (- int n) = 1 / 2 ^ n"
  by (cases n) (simp_all add: pow2_def nat_add_distrib)

lemma pow2_Suc: "pow2 (k + 1) = 2 * pow2 k"
proof (cases "0 \<le> k")
  case True
  then have "nat (k + 1) = Suc (nat k)" by simp
  then show ?thesis using True by (simp add: pow2_def)
next
  case False
  then have "nat (- k) = Suc (nat (- (k + 1)))" by simp
  then show ?thesis using False by (auto simp: pow2_def)
qed

lemma pow2_add_nat: "pow2 (j + int k) = 2 ^ k * pow2 j"
proof (induction k)
  case 0
  then show ?case by simp
next
  case (Suc k)
  have "j + int (Suc k) = (j + int k) + 1" by simp
  then have "pow2 (j + int (Suc k)) = 2 * pow2 (j + int k)" by (simp only: pow2_Suc)
  then show ?case using Suc by simp
qed

lemma pow2_mono: "j \<le> k \<Longrightarrow> pow2 j \<le> pow2 k"
proof -
  assume "j \<le> k"
  then obtain n where "k = j + int n" by (metis zle_iff_zadd)
  moreover have "(1::rat) \<le> 2 ^ n" by simp
  ultimately show ?thesis
    using pow2_pos [of j] by (simp add: pow2_add_nat mult_le_cancel_right1)
qed

lemma floor_log2_bounds:
  assumes "0 < x"
  shows "pow2 (floor_log2 x) \<le> x \<and> x < pow2 (floor_log2 x + 1)"
proof (cases "1 \<le> x")
  case True
  define n where "n = \<lfloor>x\<rfloor>"
  have n: "0 < n" "of_int n \<le> x" "x < of_int (n + 1)"
    using True by (auto simp: n_def) linarith
  define b where "b = nat (bitlen n - 1)"
  from bitlen_bounds [OF n(1)] have bb: "2 ^ b \<le> n" "n < 2 ^ nat (bitlen n)"
    by (auto simp: b_def)
  have "1 \<le> bitlen n" using n(1) by (auto simp: bitlen_alt_def)
  then have bl: "bitlen n = int b + 1" "nat (bitlen n) = Suc b" by (auto simp: b_def)
  have fl: "floor_log2 x = int b" using True bl by (simp add: floor_log2_def n_def)
  have "(2::rat) ^ b \<le> of_int n" using bb(1) by (metis of_int_le_iff of_int_numeral of_int_power)
  then have lo: "pow2 (int b) \<le> x" unfolding pow2_nat using n(2) by (rule order_trans)
  have "n + 1 \<le> 2 ^ Suc b" using bb(2) bl(2) by simp
  then have "(of_int (n + 1) :: rat) \<le> 2 ^ Suc b"
    by (metis of_int_le_iff of_int_numeral of_int_power)
  then have "x < 2 ^ Suc b" using n(3) by (rule less_le_trans [rotated])
  then have hi: "x < pow2 (int b + 1)" by (simp add: pow2_Suc pow2_nat)
  show ?thesis using lo hi by (simp add: fl)
next
  case False
  define y where "y = 1 / x"
  have y: "1 < y" using False assms by (simp add: y_def)
  define m where "m = \<lceil>y\<rceil> - 1"
  have m: "0 < m" "of_int m < y" "y \<le> of_int (m + 1)"
    using y by (auto simp: m_def) linarith+
  define b where "b = nat (bitlen m - 1)"
  from bitlen_bounds [OF m(1)] have bb: "2 ^ b \<le> m" "m < 2 ^ nat (bitlen m)"
    by (auto simp: b_def)
  have "1 \<le> bitlen m" using m(1) by (auto simp: bitlen_alt_def)
  then have bl: "bitlen m = int b + 1" "nat (bitlen m) = Suc b" by (auto simp: b_def)
  have fl: "floor_log2 x = - int (Suc b)"
    using False bl by (simp add: floor_log2_def m_def y_def)
  have "(2::rat) ^ b \<le> of_int m" using bb(1) by (metis of_int_le_iff of_int_numeral of_int_power)
  then have "2 ^ b < y" using m(2) by (rule le_less_trans)
  then have "x * 2 ^ b < 1" using assms by (simp add: y_def field_simps)
  then have hi: "x < pow2 (- int b)" by (simp add: pow2_neg_nat field_simps)
  have "m + 1 \<le> 2 ^ Suc b" using bb(2) bl(2) by simp
  then have "(of_int (m + 1) :: rat) \<le> 2 ^ Suc b"
    by (metis of_int_le_iff of_int_numeral of_int_power)
  then have "y \<le> 2 ^ Suc b" using m(3) by (rule order_trans [rotated])
  then have "1 \<le> x * 2 ^ Suc b" using assms by (simp add: y_def field_simps)
  then have lo: "pow2 (- int (Suc b)) \<le> x"
    unfolding pow2_neg_nat by (simp add: field_simps)
  have "- int (Suc b) + 1 = - int b" by simp
  then show ?thesis using lo hi fl by simp
qed

lemma round_half_even_nearest: "\<bar>of_int (round_half_even t) - t\<bar> \<le> 1 / 2"
proof -
  have "of_int \<lfloor>t\<rfloor> \<le> t" "t < of_int \<lfloor>t\<rfloor> + 1" by linarith+
  then show ?thesis by (auto simp: round_half_even_def Let_def)
qed

text \<open>Rounding moves a positive number by at most half a unit in the last place, and
  returns an integer multiple of that unit with at most 53 bits.\<close>

lemma fl_pos_error:
  assumes "0 < x"
  defines "e \<equiv> max (floor_log2 x - 52) (- 1074)"
  shows "\<bar>fl_pos x - x\<bar> \<le> pow2 e / 2"
    and "\<exists>m. fl_pos x = of_int m * pow2 e \<and> 0 \<le> m \<and> m \<le> 2 ^ 53"
proof -
  define t where "t = x / pow2 e"
  define m where "m = round_half_even t"
  have fx: "fl_pos x = of_int m * pow2 e"
    by (simp add: fl_pos_def Let_def m_def t_def e_def)
  have near: "\<bar>of_int m - t\<bar> \<le> 1 / 2" unfolding m_def by (rule round_half_even_nearest)
  have "fl_pos x - x = (of_int m - t) * pow2 e"
    using pow2_pos [of e] by (simp add: fx t_def field_simps)
  then have "\<bar>fl_pos x - x\<bar> = \<bar>of_int m - t\<bar> * pow2 e"
    using pow2_pos [of e] by (simp add: abs_mult)
  then show "\<bar>fl_pos x - x\<bar> \<le> pow2 e / 2"
    using near pow2_pos [of e] by (simp add: mult_right_mono)
  have "0 < t" using assms(1) pow2_pos [of e] by (simp add: t_def)
  have "x < pow2 (floor_log2 x + 1)" using floor_log2_bounds [OF assms(1)] by simp
  also have "pow2 (floor_log2 x + 1) \<le> pow2 (e + 53)"
    by (rule pow2_mono) (simp add: e_def)
  finally have "x < pow2 (e + 53)" .
  moreover have "pow2 (e + 53) = 2 ^ 53 * pow2 e"
    using pow2_add_nat [of e 53] by simp
  ultimately have "t < 2 ^ 53" using pow2_pos [of e] by (simp add: t_def field_simps)
  have "0 \<le> \<lfloor>t\<rfloor>" using \<open>0 < t\<close> by simp
  then have "0 \<le> m" by (auto simp: m_def round_half_even_def Let_def)
  moreover have "m \<le> 2 ^ 53"
  proof -
    have "\<lfloor>t\<rfloor> < 2 ^ 53" using \<open>t < 2 ^ 53\<close> by (simp add: floor_less_iff)
    then show ?thesis by (auto simp: m_def round_half_even_def Let_def)
  qed
  ultimately show "\<exists>m. fl_pos x = of_int m * pow2 e \<and> 0 \<le> m \<and> m \<le> 2 ^ 53"
    using fx by blast
qed

section \<open>Properties of the scoring functions\<close>

lemma fl_0: "fl 0 = 0"
  by (simp add: fl_def)

lemma fl_1: "fl 1 = 1"
  by code_simp

lemma fl_2: "fl 2 = 2"
  by code_simp

lemmas brandes_eval = compute_betweenness_def build_index_graph_def keys_def idx_def
  brandes_init_def run_source_def bfs.simps visit_edge_def accumulate_def pop_node_def
  back_edge_def reset_node_def fadd_def fmul_def fdiv_def fl_0 fl_1 fl_2 Let_def

text \<open>
  Claim C5. In exact mode (\<open>samples = 0\<close>), on the path graph \<open>A \<rightarrow> B \<rightarrow> C\<close>, whatever the
  order of the keys in the dictionary, the sampler and the seed, \<open>compute_betweenness\<close>
  returns 1 for \<open>B\<close>, which is positive, and 0 for \<open>A\<close> and for \<open>C\<close>.
\<close>

theorem betweenness_path_graph:
  "compute_betweenness rng [(''A'', [''B'']), (''B'', [''C'']), (''C'', [])] 0 seed
     = Some [(''A'', 0), (''B'', 1), (''C'', 0)] \<and>
   compute_betweenness rng [(''A'', [''B'']), (''C'', []), (''B'', [''C''])] 0 seed
     = Some [(''A'', 0), (''C'', 0), (''B'', 1)] \<and>
   compute_betweenness rng [(''B'', [''C'']), (''A'', [''B'']), (''C'', [])] 0 seed
     = Some [(''B'', 1), (''A'', 0), (''C'', 0)] \<and>
   compute_betweenness rng [(''B'', [''C'']), (''C'', []), (''A'', [''B''])] 0 seed
     = Some [(''B'', 1), (''C'', 0), (''A'', 0)] \<and>
   compute_betweenness rng [(''C'', []), (''A'', [''B'']), (''B'', [''C''])] 0 seed
     = Some [(''C'', 0), (''A'', 0), (''B'', 1)] \<and>
   compute_betweenness rng [(''C'', []), (''B'', [''C'']), (''A'', [''B''])] 0 seed
     = Some [(''C'', 0), (''B'', 1), (''A'', 0)]"
  by (intro conjI; simp add: brandes_eval)

lemma select_top_percent_none: "p \<le> 0 \<Longrightarrow> select_top_percent metrics p = []"
  by (simp add: select_top_percent_def)

lemma select_top_percent_all:
  "100 \<le> p \<Longrightarrow> select_top_percent metrics p = sort (map fst metrics)"
  by (simp add: select_top_percent_def)

lemma select_count_bounds: "0 < n \<Longrightarrow> 1 \<le> select_count n p \<and> select_count n p \<le> int n"
  by (simp add: select_count_def Let_def)

text \<open>
  Claim C7 (the code departs from it). With 25 nodes and \<open>p = 28\<close> the claim gives
  \<open>ceil(25 * 28 / 100) = 7\<close> nodes. The code computes \<open>25 * (28 / 100.0)\<close> in floating
  point: the quotient rounds up to the next binary64 number above 0.28 and the product to
  the next one above 7, whose ceiling is 8, so eight nodes are returned.
\<close>

theorem select_top_percent_rounds_up:
  "select_count 25 28 = 8 \<and> spec_select_count 25 28 = 7 \<and>
   select_top_percent metrics25 28 = [''a'', ''b'', ''c'', ''d'', ''e'', ''f'', ''g'', ''h'']"
proof (intro conjI)
  show "spec_select_count 25 28 = 7" by (simp add: spec_select_count_def)
qed code_simp+




section \<open>\<open>compute_pagerank\<close> in exact arithmetic\<close>

lemma foldl_plus: "foldl (\<lambda>acc x. acc + h x) a xs = a + (\<Sum>x\<leftarrow>xs. h x)" for a :: rat
  by (induction xs arbitrary: a) simp_all

lemma py_sum_exact: "py_sum id xs = sum_list xs"
  using foldl_plus [of "\<lambda>x. x" 0 xs] by (simp add: py_sum_def)

lemma incoming_rank_exact:
  "incoming_rank id deg prev srcs =
     (\<Sum>src\<leftarrow>srcs. if deg src > 0 then prev src / of_nat (deg src) else 0)"
proof -
  have "(\<lambda>s src. if deg src > 0 then id (s + id (prev src / of_nat (deg src))) else s)
      = (\<lambda>s src. s + (if deg src > 0 then prev src / of_nat (deg src) else 0))"
    by (auto simp: fun_eq_iff)
  then show ?thesis
    using foldl_plus [of "\<lambda>src. if deg src > 0 then prev src / of_nat (deg src) else 0" 0 srcs]
    by (simp add: incoming_rank_def)
qed

lemma incoming_total_append:
  assumes "distinct nodes" "dst \<in> set nodes"
  shows "incoming_total f nodes (I(dst := I dst @ [src])) = incoming_total f nodes I + f src"
proof -
  let ?g = "\<lambda>J node. \<Sum>s\<leftarrow>J node. f s"
  let ?I' = "I(dst := I dst @ [src])"
  have A: "incoming_total f nodes J = sum (?g J) (set nodes)" for J
    unfolding incoming_total_def using assms(1) by (simp add: sum_list_distinct_conv_sum_set)
  have B: "sum (?g ?I') (set nodes) = ?g ?I' dst + sum (?g ?I') (set nodes - {dst})"
    using assms(2) by (simp add: sum.remove)
  have C: "sum (?g I) (set nodes) = ?g I dst + sum (?g I) (set nodes - {dst})"
    using assms(2) by (simp add: sum.remove)
  have D: "sum (?g ?I') (set nodes - {dst}) = sum (?g I) (set nodes - {dst})"
    by (rule sum.cong) auto
  have E: "?g ?I' dst = ?g I dst + f src" by simp
  show ?thesis unfolding A using B C D E by linarith
qed

lemma add_in_edges_total:
  assumes "distinct nodes" "set dsts \<subseteq> set nodes"
  shows "\<exists>I'. add_in_edges nodes src dsts I = Inr I' \<and>
     incoming_total f nodes I' = incoming_total f nodes I + of_nat (length dsts) * f src"
  using assms(2)
proof (induction dsts arbitrary: I)
  case Nil
  then show ?case by simp
next
  case (Cons dst dsts)
  then have dst: "dst \<in> set nodes" and sub: "set dsts \<subseteq> set nodes" by auto
  from Cons.IH [OF sub, of "I(dst := I dst @ [src])"] obtain I' where
    "add_in_edges nodes src dsts (I(dst := I dst @ [src])) = Inr I'"
    "incoming_total f nodes I' =
       incoming_total f nodes (I(dst := I dst @ [src])) + of_nat (length dsts) * f src"
    by blast
  then show ?case
    using dst incoming_total_append [OF assms(1) dst, of f I src]
    by (simp add: algebra_simps)
qed

lemma build_in_edges_total:
  assumes "distinct nodes" "\<forall>dsts \<in> set (map snd g). set dsts \<subseteq> set nodes"
  shows "\<exists>I'. build_in_edges nodes g I = Inr I' \<and>
     incoming_total f nodes I' =
       incoming_total f nodes I + (\<Sum>(src, dsts)\<leftarrow>g. of_nat (length dsts) * f src)"
  using assms(2)
proof (induction g arbitrary: I)
  case Nil
  then show ?case by simp
next
  case (Cons item rest)
  obtain src dsts where item: "item = (src, dsts)" by (cases item)
  have sub: "set dsts \<subseteq> set nodes" and rest: "\<forall>dsts \<in> set (map snd rest). set dsts \<subseteq> set nodes"
    using Cons.prems by (auto simp: item)
  from add_in_edges_total [OF assms(1) sub, of src I f] obtain I1 where
    a: "add_in_edges nodes src dsts I = Inr I1"
      "incoming_total f nodes I1 = incoming_total f nodes I + of_nat (length dsts) * f src"
    by blast
  from Cons.IH [OF rest, of I1] obtain I2 where
    b: "build_in_edges nodes rest I1 = Inr I2"
      "incoming_total f nodes I2 =
         incoming_total f nodes I1 + (\<Sum>(src, dsts)\<leftarrow>rest. of_nat (length dsts) * f src)"
    by blast
  show ?case using a b by (simp add: item)
qed

lemma sum_list_split_filter:
  "(\<Sum>x\<leftarrow>xs. h x) = (\<Sum>x\<leftarrow>filter P xs. h x) + (\<Sum>x\<leftarrow>xs. if P x then 0 else h x)"
  for h :: "'a \<Rightarrow> rat"
  by (induction xs) simp_all

lemma pagerank_step_sum:
  assumes wf: "wf_graph g" and nz: "g \<noteq> []"
    and tot: "\<And>f. incoming_total f (keys g) I =
        (\<Sum>(src, dsts)\<leftarrow>g. of_nat (length dsts) * f src)"
    and prev: "(\<Sum>node\<leftarrow>keys g. prev node) = 1"
  shows "(\<Sum>node\<leftarrow>keys g.
           pagerank_step id (keys g) (\<lambda>node. length (get_deps g node)) I damping prev node) = 1"
proof -
  let ?deg = "\<lambda>node. length (get_deps g node)"
  let ?f = "\<lambda>src. if ?deg src > 0 then prev src / of_nat (?deg src) else 0"
  define n :: rat where "n = of_nat (length (keys g))"
  define dm where "dm = (\<Sum>node\<leftarrow>filter (\<lambda>node. ?deg node = 0) (keys g). prev node)"
  have n: "0 < n" using nz by (simp add: n_def keys_def)
  have dk: "distinct (map fst g)" using wf by (simp add: wf_graph_def)
  have step: "pagerank_step id (keys g) ?deg I damping prev
      = (\<lambda>node. (1 - damping) / n + damping * dm / n + damping * (\<Sum>src\<leftarrow>I node. ?f src))"
    by (simp add: pagerank_step_def Let_def py_sum_exact incoming_rank_exact n_def dm_def
        comp_def fun_eq_iff)
  have "(\<Sum>(src, dsts)\<leftarrow>g. of_nat (length dsts) * ?f src)
      = (\<Sum>(src, dsts)\<leftarrow>g. if ?deg src = 0 then 0 else prev src)"
  proof (rule arg_cong [where f = sum_list], rule map_cong [OF refl])
    fix item assume mem: "item \<in> set g"
    obtain src dsts where item: "item = (src, dsts)" by (cases item)
    have "get_deps g src = dsts" using get_deps_distinct_keys [OF dk] mem item by simp
    then show "(case item of (src, dsts) \<Rightarrow> of_nat (length dsts) * ?f src)
        = (case item of (src, dsts) \<Rightarrow> if ?deg src = 0 then 0 else prev src)"
      by (simp add: item)
  qed
  also have "\<dots> = (\<Sum>node\<leftarrow>keys g. if ?deg node = 0 then 0 else prev node)"
    by (simp add: keys_def comp_def case_prod_unfold)
  finally have inc: "incoming_total ?f (keys g) I
      = (\<Sum>node\<leftarrow>keys g. if ?deg node = 0 then 0 else prev node)"
    using tot [of ?f] by simp
  have split: "1 = dm + (\<Sum>node\<leftarrow>keys g. if ?deg node = 0 then 0 else prev node)"
    using sum_list_split_filter [of prev "keys g" "\<lambda>node. ?deg node = 0"] prev
    by (simp add: dm_def)
  define S where "S = (\<Sum>node\<leftarrow>keys g. pagerank_step id (keys g) ?deg I damping prev node)"
  define Q where "Q = (\<Sum>node\<leftarrow>keys g. if ?deg node = 0 then 0 else prev node)"
  have "S = (\<Sum>node\<leftarrow>keys g. (1 - damping) / n + damping * dm / n)
        + damping * incoming_total ?f (keys g) I"
    unfolding S_def
    by (simp add: step sum_list_addf sum_list_const_mult incoming_total_def)
  moreover have "(\<Sum>node\<leftarrow>keys g. (1 - damping) / n + damping * dm / n)
      = (1 - damping) + damping * dm"
    using n by (simp add: sum_list_triv n_def [symmetric] field_simps)
  ultimately have "S = (1 - damping) + damping * dm + damping * Q"
    using inc by (simp only: Q_def)
  then have "S = (1 - damping) + damping * (dm + Q)" by (simp add: algebra_simps)
  moreover have "dm + Q = 1" using split by (simp only: Q_def)
  ultimately have "S = 1" by simp
  then show ?thesis by (simp only: S_def)
qed

lemma pagerank_loop_sum:
  assumes wf: "wf_graph g" and nz: "g \<noteq> []"
    and tot: "\<And>f. incoming_total f (keys g) I =
        (\<Sum>(src, dsts)\<leftarrow>g. of_nat (length dsts) * f src)"
  shows "(\<Sum>node\<leftarrow>keys g. prev node) = 1 \<Longrightarrow>
     (\<Sum>node\<leftarrow>keys g.
        pagerank_loop id (keys g) (\<lambda>node. length (get_deps g node)) I damping tol k prev node)
     = 1"
proof (induction k arbitrary: prev)
  case 0
  then show ?case by simp
next
  case (Suc k)
  let ?deg = "\<lambda>node. length (get_deps g node)"
  let ?rank = "pagerank_step id (keys g) ?deg I damping prev"
  define stop where
    "stop \<longleftrightarrow> py_sum id (map (\<lambda>node. \<bar>id (?rank node - prev node)\<bar>) (keys g)) < tol"
  have s: "(\<Sum>node\<leftarrow>keys g. ?rank node) = 1"
    by (rule pagerank_step_sum [OF wf nz tot Suc.prems])
  have unfold: "pagerank_loop id (keys g) ?deg I damping tol (Suc k) prev
      = (if stop then ?rank else pagerank_loop id (keys g) ?deg I damping tol k ?rank)"
    by (simp only: pagerank_loop.simps Let_def stop_def)
  show ?case
  proof (cases stop)
    case True
    then show ?thesis using s by (simp only: unfold if_True)
  next
    case False
    then show ?thesis using Suc.IH [OF s] by (simp only: unfold if_False)
  qed
qed

text \<open>
  In exact arithmetic every rank vector that \<open>compute_pagerank\<close> goes through sums to
  exactly 1, on every non-empty closed graph, for every damping factor, tolerance and
  iteration cap: the returned ranks sum to 1 however the iteration stopped. The floating
  point result differs from this by the rounding errors of the operations.
\<close>

lemma pagerank_exact_sum:
  assumes "wf_graph g" "closed g" "g \<noteq> []"
  shows "\<exists>ranks. pagerank_with id g damping max_iter tol = Inr ranks \<and>
     map fst ranks = keys g \<and> sum_list (map snd ranks) = 1"
proof -
  have dk: "distinct (keys g)" using assms(1) by (simp add: wf_graph_def keys_def)
  have cl: "\<forall>dsts \<in> set (map snd g). set dsts \<subseteq> set (keys g)"
    using assms(2) by (simp add: closed_def)
  have n: "length (keys g) \<noteq> 0" using assms(3) by (simp add: keys_def)
  have tot: "\<exists>I. build_in_edges (keys g) g (\<lambda>node. []) = Inr I \<and>
      (\<forall>f. incoming_total f (keys g) I = (\<Sum>(src, dsts)\<leftarrow>g. of_nat (length dsts) * f src))"
  proof -
    from build_in_edges_total [OF dk cl, of "\<lambda>node. []" "\<lambda>x. 0"] obtain I where
      I: "build_in_edges (keys g) g (\<lambda>node. []) = Inr I" by blast
    have "incoming_total f (keys g) I = (\<Sum>(src, dsts)\<leftarrow>g. of_nat (length dsts) * f src)" for f
      using build_in_edges_total [OF dk cl, of "\<lambda>node. []" f] I
      by (simp add: incoming_total_def)
    with I show ?thesis by blast
  qed
  then obtain I where I: "build_in_edges (keys g) g (\<lambda>node. []) = Inr I"
    and t: "\<And>f. incoming_total f (keys g) I =
        (\<Sum>(src, dsts)\<leftarrow>g. of_nat (length dsts) * f src)" by blast
  have init: "(\<Sum>node\<leftarrow>keys g. id (1 / of_nat (length (keys g)) :: rat)) = 1"
    using n by (simp add: sum_list_triv)
  from pagerank_loop_sum [OF assms(1,3) t init, of damping tol "nat max_iter"]
  show ?thesis using I n by (simp add: pagerank_with_def Let_def comp_def)
qed

end
